theory Spec2Isabelle
  imports Complex_Main "HOL-Library.Word" "HOL-Library.AList"
begin

section \<open>Transactions and pool entries\<close>

text \<open>
  The embedding follows \<^verbatim>\<open>src/txmempool.cpp\<close>. The transaction, entry and index types
  are declared in headers; the records below carry the members that the functions of
  \<^verbatim>\<open>txmempool.cpp\<close> read. A \<^verbatim>\<open>uint256\<close> is a 256-bit word. \<^verbatim>\<open>CAmount\<close> is a signed
  64-bit amount whose overflow is undefined behaviour in C++; it is an \<open>int\<close> here.
  A \<^verbatim>\<open>double\<close> is only ever accumulated (the priority delta) and is a \<open>real\<close> here.
\<close>

type_synonym uint256 = "256 word"
type_synonym CAmount = int

datatype COutPoint = COutPoint (op_hash: uint256) (op_n: nat)

record CTxIn =
  prevout :: COutPoint

record CTxOut =
  nValue :: CAmount

record JSDescription =
  js_anchor :: uint256
  js_nullifiers :: "uint256 list"
  js_commitments :: "uint256 list"

record SpendDescription =
  spend_anchor :: uint256
  spend_nullifier :: uint256

record OrchardBundle =
  GetNullifiers :: "uint256 list"

text \<open>
  \<open>GetHash\<close> is the cached member \<^verbatim>\<open>hash\<close> of \<^verbatim>\<open>CTransaction\<close>; equality of transactions
  (\<^verbatim>\<open>operator==\<close>, \<^verbatim>\<open>operator!=\<close>) compares this member only.
\<close>

record CTransaction =
  GetHash :: uint256
  vin :: "CTxIn list"
  vout :: "CTxOut list"
  vJoinSplit :: "JSDescription list"
  vShieldedSpend :: "SpendDescription list"
  GetOrchardBundle :: OrchardBundle

definition tx_ne :: "CTransaction \<Rightarrow> CTransaction \<Rightarrow> bool" where
  "tx_ne a b = (GetHash a \<noteq> GetHash b)"

record CTxMemPoolEntry =
  GetTx :: CTransaction
  nFee :: CAmount
  nTxSize :: "64 word"
  nModSize :: "64 word"
  nUsageSize :: "64 word"
  nTime :: int
  dPriority :: real
  nHeight :: nat
  hadNoDependencies :: bool
  spendsCoinbase :: bool
  sigOpCount :: nat
  nBranchId :: "32 word"
  feeDelta :: int

definition UpdateFeeDelta :: "int \<Rightarrow> CTxMemPoolEntry \<Rightarrow> CTxMemPoolEntry" where
  "UpdateFeeDelta newFeeDelta e = e\<lparr>feeDelta := newFeeDelta\<rparr>"

datatype ShieldedType = SPROUT | SAPLING | ORCHARD | OTHER_TYPE

datatype CInPoint = CInPoint (ptx: CTransaction) (ip_n: nat)

text \<open>
  The fee estimator is an opaque sink: the pool only calls it. Its state is the list of
  the calls it has received, oldest first.
\<close>

datatype estimator_call =
  processTransaction CTxMemPoolEntry bool
  | removeTx uint256
  | processBlock nat "CTxMemPoolEntry list" bool

text \<open>
  Modelled from the spec: \<^verbatim>\<open>WeightedTxTree\<close> and \<^verbatim>\<open>WeightedTxInfo::from\<close> are declared
  outside \<^verbatim>\<open>txmempool.cpp\<close>. The spec gives the tree the operations \<^verbatim>\<open>add(txid, weight)\<close>
  and \<^verbatim>\<open>remove(txid)\<close> over (txid, fee-weight) items. The tree is the list of the items
  added and not yet removed; an item keeps the two arguments of \<^verbatim>\<open>WeightedTxInfo::from\<close>,
  the weight computed from them is left uninterpreted.
\<close>

datatype WeightedTxInfo = WeightedTxInfo_from CTransaction CAmount

fun wti_txId :: "WeightedTxInfo \<Rightarrow> uint256" where
  "wti_txId (WeightedTxInfo_from t fee) = GetHash t"

definition tree_add :: "WeightedTxInfo \<Rightarrow> WeightedTxInfo list \<Rightarrow> WeightedTxInfo list" where
  "tree_add i tree = tree @ [i]"

definition tree_remove :: "uint256 \<Rightarrow> WeightedTxInfo list \<Rightarrow> WeightedTxInfo list" where
  "tree_remove h tree = filter (\<lambda>i. wti_txId i \<noteq> h) tree"

text \<open>Keys and values of the address and spent indexes (insightexplorer).\<close>

record CMempoolAddressDeltaKey =
  adk_type :: nat
  adk_addressBytes :: "160 word"
  adk_txhash :: uint256
  adk_index :: nat
  adk_spending :: bool

record CMempoolAddressDelta =
  ad_time :: int
  ad_amount :: CAmount
  ad_prevhash :: uint256
  ad_prevout :: nat

datatype CSpentIndexKey = CSpentIndexKey uint256 nat

record CSpentIndexValue =
  sv_txid :: uint256
  sv_inputIndex :: nat
  sv_blockHeight :: int
  sv_satoshis :: CAmount
  sv_addressType :: nat
  sv_addressHash :: "160 word"

section \<open>The pool\<close>

text \<open>
  \<open>mapTx\<close> is the multi-index container; its unique index is the txid. It is the list of
  its entries in the order in which the loops of the source visit them (the order of the
  hashed index is not specified; the list keeps insertion order). Each \<^verbatim>\<open>std::map\<close> is an
  association list read with \<open>map_of\<close> and written with \<open>AList.update\<close> and
  \<open>AList.delete\<close>. A \<^verbatim>\<open>const CTransaction*\<close> stored in a map is the transaction it was
  taken from. \<open>fAddressIndex\<close> and \<open>fSpentIndex\<close> are the global flags that \<open>remove\<close> reads.
\<close>

record CTxMemPool =
  nTransactionsUpdated :: "32 word"
  nCheckFrequency :: "32 word"
  totalTxSize :: "64 word"
  cachedInnerUsage :: "64 word"
  mapTx :: "CTxMemPoolEntry list"
  mapNextTx :: "(COutPoint \<times> CInPoint) list"
  mapSproutNullifiers :: "(uint256 \<times> CTransaction) list"
  mapSaplingNullifiers :: "(uint256 \<times> CTransaction) list"
  mapOrchardNullifiers :: "(uint256 \<times> CTransaction) list"
  mapRecentlyAddedTx :: "(uint256 \<times> CTransaction) list"
  nRecentlyAddedSequence :: "64 word"
  mapDeltas :: "(uint256 \<times> (real \<times> CAmount)) list"
  weightedTxTree :: "WeightedTxInfo list"
  minerPolicyEstimator :: "estimator_call list"
  mapAddress :: "(CMempoolAddressDeltaKey \<times> CMempoolAddressDelta) list"
  mapAddressInserted :: "(uint256 \<times> CMempoolAddressDeltaKey list) list"
  mapSpent :: "(CSpentIndexKey \<times> CSpentIndexValue) list"
  mapSpentInserted :: "(uint256 \<times> CSpentIndexKey list) list"
  fAddressIndex :: bool
  fSpentIndex :: bool

subsection \<open>The entry container\<close>

definition mapTx_find :: "CTxMemPoolEntry list \<Rightarrow> uint256 \<Rightarrow> CTxMemPoolEntry option" where
  "mapTx_find m h = find (\<lambda>e. GetHash (GetTx e) = h) m"

definition mapTx_count :: "CTxMemPoolEntry list \<Rightarrow> uint256 \<Rightarrow> bool" where
  "mapTx_count m h = (mapTx_find m h \<noteq> None)"

text \<open>\<^verbatim>\<open>insert\<close> of a txid that is present inserts nothing and yields the entry present.\<close>

definition mapTx_insert ::
  "CTxMemPoolEntry \<Rightarrow> CTxMemPoolEntry list \<Rightarrow> CTxMemPoolEntry \<times> CTxMemPoolEntry list" where
  "mapTx_insert e m =
     (case mapTx_find m (GetHash (GetTx e)) of
        Some e' \<Rightarrow> (e', m)
      | None \<Rightarrow> (e, m @ [e]))"

definition mapTx_erase :: "uint256 \<Rightarrow> CTxMemPoolEntry list \<Rightarrow> CTxMemPoolEntry list" where
  "mapTx_erase h m = filter (\<lambda>e. GetHash (GetTx e) \<noteq> h) m"

text \<open>\<^verbatim>\<open>mapTx.modify(it, update_fee_delta(d))\<close> for the iterator of the entry with txid \<open>h\<close>.\<close>

definition mapTx_modify_fee_delta ::
  "uint256 \<Rightarrow> int \<Rightarrow> CTxMemPoolEntry list \<Rightarrow> CTxMemPoolEntry list" where
  "mapTx_modify_fee_delta h d m =
     map (\<lambda>e. if GetHash (GetTx e) = h then UpdateFeeDelta d e else e) m"

definition exists_tx :: "CTxMemPool \<Rightarrow> uint256 \<Rightarrow> bool" where
  "exists_tx pool h = mapTx_count (mapTx pool) h"

definition get :: "CTxMemPool \<Rightarrow> uint256 \<Rightarrow> CTransaction option" where
  "get pool h =
     (case mapTx_find (mapTx pool) h of
        None \<Rightarrow> None
      | Some i \<Rightarrow> Some (GetTx i))"

subsection \<open>addUnchecked\<close>

definition sprout_nullifiers :: "CTransaction \<Rightarrow> uint256 list" where
  "sprout_nullifiers t = concat (map js_nullifiers (vJoinSplit t))"

definition sapling_nullifiers :: "CTransaction \<Rightarrow> uint256 list" where
  "sapling_nullifiers t = map spend_nullifier (vShieldedSpend t)"

definition orchard_nullifiers :: "CTransaction \<Rightarrow> uint256 list" where
  "orchard_nullifiers t = GetNullifiers (GetOrchardBundle t)"

definition record_spends ::
  "CTransaction \<Rightarrow> (COutPoint \<times> CInPoint) list \<Rightarrow> (COutPoint \<times> CInPoint) list" where
  "record_spends t m =
     fold (\<lambda>i. AList.update (prevout (vin t ! i)) (CInPoint t i)) [0..<length (vin t)] m"

definition record_nullifiers ::
  "uint256 list \<Rightarrow> CTransaction \<Rightarrow> (uint256 \<times> CTransaction) list
     \<Rightarrow> (uint256 \<times> CTransaction) list" where
  "record_nullifiers nfs t m = fold (\<lambda>nf. AList.update nf t) nfs m"

definition addUnchecked ::
  "uint256 \<Rightarrow> CTxMemPoolEntry \<Rightarrow> bool \<Rightarrow> CTxMemPool \<Rightarrow> bool \<times> CTxMemPool" where
  "addUnchecked hash entry fCurrentEstimate pool =
     (let (newit, m) = mapTx_insert entry (mapTx pool);
          t = GetTx newit;
          m' = (case map_of (mapDeltas pool) hash of
                  None \<Rightarrow> m
                | Some deltas \<Rightarrow>
                    if snd deltas \<noteq> 0
                    then mapTx_modify_fee_delta (GetHash t) (snd deltas) m
                    else m)
      in (True,
          pool\<lparr>weightedTxTree :=
                 tree_add (WeightedTxInfo_from (GetTx entry) (nFee entry)) (weightedTxTree pool),
               mapTx := m',
               cachedInnerUsage := cachedInnerUsage pool + nUsageSize entry,
               mapRecentlyAddedTx := AList.update (GetHash t) t (mapRecentlyAddedTx pool),
               nRecentlyAddedSequence := nRecentlyAddedSequence pool + 1,
               mapNextTx := record_spends t (mapNextTx pool),
               mapSproutNullifiers :=
                 record_nullifiers (sprout_nullifiers t) t (mapSproutNullifiers pool),
               mapSaplingNullifiers :=
                 record_nullifiers (sapling_nullifiers t) t (mapSaplingNullifiers pool),
               mapOrchardNullifiers :=
                 record_nullifiers (orchard_nullifiers t) t (mapOrchardNullifiers pool),
               nTransactionsUpdated := nTransactionsUpdated pool + 1,
               totalTxSize := totalTxSize pool + nTxSize entry,
               minerPolicyEstimator :=
                 minerPolicyEstimator pool @ [processTransaction entry fCurrentEstimate]\<rparr>))"

subsection \<open>Prioritisation\<close>


definition ApplyDeltas :: "CTxMemPool \<Rightarrow> uint256 \<Rightarrow> real \<times> CAmount \<Rightarrow> real \<times> CAmount" where
  "ApplyDeltas pool hash acc =
     (case map_of (mapDeltas pool) hash of
        None \<Rightarrow> acc
      | Some deltas \<Rightarrow> (fst acc + fst deltas, snd acc + snd deltas))"

definition ClearPrioritisation :: "uint256 \<Rightarrow> CTxMemPool \<Rightarrow> CTxMemPool" where
  "ClearPrioritisation hash pool = pool\<lparr>mapDeltas := AList.delete hash (mapDeltas pool)\<rparr>"

subsection \<open>clear\<close>

definition clear :: "CTxMemPool \<Rightarrow> CTxMemPool" where
  "clear pool =
     pool\<lparr>mapTx := [],
          mapNextTx := [],
          totalTxSize := 0,
          cachedInnerUsage := 0,
          nTransactionsUpdated := nTransactionsUpdated pool + 1\<rparr>"

subsection \<open>remove\<close>

definition removeAddressIndex :: "uint256 \<Rightarrow> CTxMemPool \<Rightarrow> CTxMemPool" where
  "removeAddressIndex txhash pool =
     (case map_of (mapAddressInserted pool) txhash of
        None \<Rightarrow> pool
      | Some keys \<Rightarrow>
          pool\<lparr>mapAddress := fold AList.delete keys (mapAddress pool),
               mapAddressInserted := AList.delete txhash (mapAddressInserted pool)\<rparr>)"

definition removeSpentIndex :: "uint256 \<Rightarrow> CTxMemPool \<Rightarrow> CTxMemPool" where
  "removeSpentIndex txhash pool =
     (case map_of (mapSpentInserted pool) txhash of
        None \<Rightarrow> pool
      | Some keys \<Rightarrow>
          pool\<lparr>mapSpent := fold AList.delete keys (mapSpent pool),
               mapSpentInserted := AList.delete txhash (mapSpentInserted pool)\<rparr>)"

text \<open>
  The txids pushed by the loop over the output indexes \<open>0 ..< k\<close> of \<open>h\<close>: for each index
  with a row in \<open>mapNextTx\<close>, the txid of the spending transaction.
\<close>

definition spenders_of :: "(COutPoint \<times> CInPoint) list \<Rightarrow> uint256 \<Rightarrow> nat \<Rightarrow> uint256 list" where
  "spenders_of m h k =
     List.map_filter (\<lambda>i. map_option (\<lambda>ip. GetHash (ptx ip)) (map_of m (COutPoint h i))) [0..<k]"

text \<open>The body of the work loop for a txid \<open>hash\<close> found in \<open>mapTx\<close> as entry \<open>e\<close>.\<close>

definition remove_entry :: "uint256 \<Rightarrow> CTxMemPoolEntry \<Rightarrow> CTxMemPool \<Rightarrow> CTxMemPool" where
  "remove_entry hash e pool =
     (let t = GetTx e;
          pool1 = pool\<lparr>mapRecentlyAddedTx := AList.delete hash (mapRecentlyAddedTx pool),
                       mapNextTx := fold (\<lambda>txin. AList.delete (prevout txin)) (vin t) (mapNextTx pool),
                       mapSproutNullifiers :=
                         fold AList.delete (sprout_nullifiers t) (mapSproutNullifiers pool),
                       mapSaplingNullifiers :=
                         fold AList.delete (sapling_nullifiers t) (mapSaplingNullifiers pool),
                       mapOrchardNullifiers :=
                         fold AList.delete (orchard_nullifiers t) (mapOrchardNullifiers pool),
                       totalTxSize := totalTxSize pool - nTxSize e,
                       cachedInnerUsage := cachedInnerUsage pool - nUsageSize e,
                       mapTx := mapTx_erase hash (mapTx pool),
                       nTransactionsUpdated := nTransactionsUpdated pool + 1,
                       minerPolicyEstimator := minerPolicyEstimator pool @ [removeTx hash]\<rparr>;
          pool2 = (if fAddressIndex pool1 then removeAddressIndex hash pool1 else pool1)
      in if fSpentIndex pool2 then removeSpentIndex hash pool2 else pool2)"

function remove_loop ::
  "bool \<Rightarrow> uint256 list \<Rightarrow> CTxMemPool \<Rightarrow> CTransaction list \<Rightarrow> CTxMemPool \<times> CTransaction list" where
  "remove_loop fRecursive [] pool removed = (pool, removed)"
| "remove_loop fRecursive (hash # txToRemove) pool removed =
     (case mapTx_find (mapTx pool) hash of
        None \<Rightarrow> remove_loop fRecursive txToRemove pool removed
      | Some e \<Rightarrow>
          remove_loop fRecursive
            (txToRemove @
               (if fRecursive
                then spenders_of (mapNextTx pool) hash (length (vout (GetTx e)))
                else []))
            (remove_entry hash e pool)
            (removed @ [GetTx e]))"
  by pat_completeness auto
termination
proof (relation "measures [\<lambda>(r, q, p, rm). length (mapTx p), \<lambda>(r, q, p, rm). length q]",
    goal_cases)
  case 1
  show ?case by simp
next
  case (2 fRecursive hash txToRemove pool removed)
  show ?case by simp
next
  case (3 fRecursive hash txToRemove pool removed e)
  have erased: "mapTx (remove_entry hash e pool) = mapTx_erase hash (mapTx pool)"
    by (simp add: remove_entry_def Let_def removeAddressIndex_def removeSpentIndex_def
        split: option.split)
  from 3 have "e \<in> set (mapTx pool)" and "GetHash (GetTx e) = hash"
    unfolding mapTx_find_def by (auto simp: find_Some_iff)
  then have "length (mapTx_erase hash (mapTx pool)) < length (mapTx pool)"
    unfolding mapTx_erase_def by (intro length_filter_less [of e]) simp_all
  with erased show ?case by simp
qed

text \<open>The work queue before the loop: the txid itself and, for a recursive removal of a
  transaction that is not in the pool, the spenders of its outputs.\<close>

definition initial_queue :: "CTransaction \<Rightarrow> bool \<Rightarrow> CTxMemPool \<Rightarrow> uint256 list" where
  "initial_queue origTx fRecursive pool =
     GetHash origTx #
       (if fRecursive \<and> \<not> mapTx_count (mapTx pool) (GetHash origTx)
        then spenders_of (mapNextTx pool) (GetHash origTx) (length (vout origTx))
        else [])"

definition remove_tx ::
  "CTransaction \<Rightarrow> CTransaction list \<Rightarrow> bool \<Rightarrow> CTxMemPool \<Rightarrow> CTxMemPool \<times> CTransaction list" where
  "remove_tx origTx removed fRecursive pool =
     (let (pool', removed') =
            remove_loop fRecursive (initial_queue origTx fRecursive pool) pool removed
      in (pool'\<lparr>weightedTxTree :=
                  fold (\<lambda>t. tree_remove (GetHash t)) removed' (weightedTxTree pool')\<rparr>,
          removed'))"

subsection \<open>Sweeps\<close>

datatype error = runtime_error string

text \<open>
  The first loop of \<open>removeWithAnchor\<close>: the \<^verbatim>\<open>switch\<close> is evaluated once per entry, so an
  unhandled type throws at the first entry and not at all in an empty pool.
\<close>

fun anchor_scan ::
  "uint256 \<Rightarrow> ShieldedType \<Rightarrow> CTxMemPoolEntry list \<Rightarrow> CTransaction list
     \<Rightarrow> error + CTransaction list" where
  "anchor_scan invalidRoot type [] transactionsToRemove = Inr transactionsToRemove"
| "anchor_scan invalidRoot type (it # rest) transactionsToRemove =
     (case type of
        SPROUT \<Rightarrow>
          anchor_scan invalidRoot type rest
            (if list_ex (\<lambda>joinsplit. js_anchor joinsplit = invalidRoot) (vJoinSplit (GetTx it))
             then transactionsToRemove @ [GetTx it] else transactionsToRemove)
      | SAPLING \<Rightarrow>
          anchor_scan invalidRoot type rest
            (if list_ex (\<lambda>sd. spend_anchor sd = invalidRoot) (vShieldedSpend (GetTx it))
             then transactionsToRemove @ [GetTx it] else transactionsToRemove)
      | _ \<Rightarrow> Inl (runtime_error ''Unknown shielded type''))"

text \<open>The second loop of every sweep: a recursive remove per collected transaction.\<close>

definition remove_all :: "CTransaction list \<Rightarrow> CTxMemPool \<Rightarrow> CTxMemPool" where
  "remove_all transactionsToRemove pool =
     fold (\<lambda>t p. fst (remove_tx t [] True p)) transactionsToRemove pool"

definition removeWithAnchor :: "uint256 \<Rightarrow> ShieldedType \<Rightarrow> CTxMemPool \<Rightarrow> error + CTxMemPool" where
  "removeWithAnchor invalidRoot type pool =
     (case anchor_scan invalidRoot type (mapTx pool) [] of
        Inl ex \<Rightarrow> Inl ex
      | Inr transactionsToRemove \<Rightarrow> Inr (remove_all transactionsToRemove pool))"

text \<open>One lookup of \<open>removeConflicts\<close>: \<open>it\<close> is the transaction the map row points to.\<close>

definition remove_conflict ::
  "CTransaction \<Rightarrow> CTransaction option \<Rightarrow> CTxMemPool \<times> CTransaction list
     \<Rightarrow> CTxMemPool \<times> CTransaction list" where
  "remove_conflict t it st =
     (case it of
        None \<Rightarrow> st
      | Some txConflict \<Rightarrow>
          if tx_ne txConflict t then remove_tx txConflict (snd st) True (fst st) else st)"

definition removeConflicts ::
  "CTransaction \<Rightarrow> CTransaction list \<Rightarrow> CTxMemPool \<Rightarrow> CTxMemPool \<times> CTransaction list" where
  "removeConflicts t removed pool =
     (let s1 = fold (\<lambda>txin st.
                 remove_conflict t (map_option ptx (map_of (mapNextTx (fst st)) (prevout txin))) st)
               (vin t) (pool, removed);
          s2 = fold (\<lambda>nf st. remove_conflict t (map_of (mapSproutNullifiers (fst st)) nf) st)
               (sprout_nullifiers t) s1;
          s3 = fold (\<lambda>nf st. remove_conflict t (map_of (mapSaplingNullifiers (fst st)) nf) st)
               (sapling_nullifiers t) s2
      in fold (\<lambda>nf st. remove_conflict t (map_of (mapOrchardNullifiers (fst st)) nf) st)
           (orchard_nullifiers t) s3)"

text \<open>\<open>IsExpiredTx\<close> is defined outside \<^verbatim>\<open>txmempool.cpp\<close> and is a parameter.\<close>

definition removeExpired ::
  "(CTransaction \<Rightarrow> nat \<Rightarrow> bool) \<Rightarrow> nat \<Rightarrow> CTxMemPool \<Rightarrow> uint256 list \<times> CTxMemPool" where
  "removeExpired IsExpiredTx nBlockHeight pool =
     (let transactionsToRemove =
            map GetTx (filter (\<lambda>it. IsExpiredTx (GetTx it) nBlockHeight) (mapTx pool))
      in fold (\<lambda>t (ids, p). (ids @ [GetHash t], fst (remove_tx t [] True p)))
           transactionsToRemove ([], pool))"

definition block_step ::
  "CTransaction \<Rightarrow> CTxMemPool \<times> CTransaction list \<Rightarrow> CTxMemPool \<times> CTransaction list" where
  "block_step t st =
     (let (p1, dummy) = remove_tx t [] False (fst st);
          (p2, conflicts) = removeConflicts t (snd st) p1
      in (ClearPrioritisation (GetHash t) p2, conflicts))"

definition removeForBlock ::
  "CTransaction list \<Rightarrow> nat \<Rightarrow> CTransaction list \<Rightarrow> bool \<Rightarrow> CTxMemPool
     \<Rightarrow> CTxMemPool \<times> CTransaction list" where
  "removeForBlock vtx nBlockHeight conflicts fCurrentEstimate pool =
     (let entries = List.map_filter (\<lambda>t. mapTx_find (mapTx pool) (GetHash t)) vtx;
          (pool', conflicts') = fold block_step vtx (pool, conflicts)
      in (pool'\<lparr>minerPolicyEstimator :=
                  minerPolicyEstimator pool' @ [processBlock nBlockHeight entries fCurrentEstimate]\<rparr>,
          conflicts'))"

definition removeWithoutBranchId :: "32 word \<Rightarrow> CTxMemPool \<Rightarrow> CTxMemPool" where
  "removeWithoutBranchId nMemPoolBranchId pool =
     remove_all (map GetTx (filter (\<lambda>it. nBranchId it \<noteq> nMemPoolBranchId) (mapTx pool))) pool"

subsection \<open>The checker\<close>

datatype outcome = Done | AssertionFailed | Thrown error

text \<open>
  \<^verbatim>\<open>&tx == entry.second\<close> compares the address of the transaction found under the txid with
  the stored pointer; on transactions as values it is equality.
\<close>

definition checkNullifiers :: "CTxMemPool \<Rightarrow> ShieldedType \<Rightarrow> outcome" where
  "checkNullifiers pool type =
     (case (case type of
              SPROUT \<Rightarrow> Some (mapSproutNullifiers pool)
            | SAPLING \<Rightarrow> Some (mapSaplingNullifiers pool)
            | ORCHARD \<Rightarrow> Some (mapOrchardNullifiers pool)
            | OTHER_TYPE \<Rightarrow> None) of
        None \<Rightarrow> Thrown (runtime_error ''Unknown nullifier type'')
      | Some mapToUse \<Rightarrow>
          if list_all (\<lambda>entry.
                case mapTx_find (mapTx pool) (GetHash (snd entry)) of
                  None \<Rightarrow> False
                | Some findTx \<Rightarrow> GetTx findTx = snd entry) mapToUse
          then Done else AssertionFailed)"

text \<open>The assertions of the entry loop of \<open>check\<close> on \<open>mapNextTx\<close>, for the inputs of one entry.\<close>

definition entry_spends_marked :: "CTxMemPool \<Rightarrow> CTxMemPoolEntry \<Rightarrow> bool" where
  "entry_spends_marked pool it =
     list_all (\<lambda>i.
        case map_of (mapNextTx pool) (prevout (vin (GetTx it) ! i)) of
          None \<Rightarrow> False
        | Some it3 \<Rightarrow> ptx it3 = GetTx it \<and> ip_n it3 = i)
       [0..<length (vin (GetTx it))]"

text \<open>The assertions of the loop of \<open>check\<close> over the rows of \<open>mapNextTx\<close>.\<close>

definition spend_row_ok :: "CTxMemPool \<Rightarrow> COutPoint \<times> CInPoint \<Rightarrow> bool" where
  "spend_row_ok pool it =
     (case mapTx_find (mapTx pool) (GetHash (ptx (snd it))) of
        None \<Rightarrow> False
      | Some it2 \<Rightarrow>
          GetTx it2 = ptx (snd it) \<and> ip_n (snd it) < length (vin (GetTx it2))
          \<and> fst it = prevout (vin (ptx (snd it)) ! ip_n (snd it)))"

text \<open>
  \<open>check\<close>. \<open>rnd\<close> is the value drawn by \<^verbatim>\<open>GetRand\<close>. The assertions that consult the coin
  view and the consensus checks (available coins, anchors, nullifiers of the base view,
  \<^verbatim>\<open>CheckTxInputs\<close>, the waiting-on-dependants loop) are the parameter \<open>view_ok\<close>; the
  assertions on the pool's own maps and counters are written out, in the source's order.
\<close>

definition check :: "(CTxMemPool \<Rightarrow> bool) \<Rightarrow> nat \<Rightarrow> CTxMemPool \<Rightarrow> outcome option" where
  "check view_ok rnd pool =
     (if nCheckFrequency pool = 0 then None
      else if rnd \<ge> unat (nCheckFrequency pool) then None
      else Some
        (if \<not> (list_all (entry_spends_marked pool) (mapTx pool) \<and> view_ok pool)
         then AssertionFailed
         else if \<not> list_all (spend_row_ok pool) (mapNextTx pool) then AssertionFailed
         else case checkNullifiers pool SPROUT of
           Done \<Rightarrow>
             (case checkNullifiers pool SAPLING of
                Done \<Rightarrow>
                  if totalTxSize pool = sum_list (map nTxSize (mapTx pool))
                     \<and> sum_list (map nUsageSize (mapTx pool)) = cachedInnerUsage pool
                  then Done else AssertionFailed
              | r \<Rightarrow> r)
         | r \<Rightarrow> r))"

subsection \<open>Queries and the coin view\<close>

text \<open>\<open>CompareTxMemPoolEntryByScore\<close> is defined outside \<^verbatim>\<open>txmempool.cpp\<close> and is a parameter.\<close>

definition CompareDepthAndScore ::
  "(CTxMemPoolEntry \<Rightarrow> CTxMemPoolEntry \<Rightarrow> bool) \<Rightarrow> CTxMemPool \<Rightarrow> uint256 \<Rightarrow> uint256 \<Rightarrow> bool" where
  "CompareDepthAndScore CompareTxMemPoolEntryByScore pool hasha hashb =
     (case mapTx_find (mapTx pool) hasha of
        None \<Rightarrow> False
      | Some i \<Rightarrow>
          (case mapTx_find (mapTx pool) hashb of
             None \<Rightarrow> True
           | Some j \<Rightarrow> CompareTxMemPoolEntryByScore i j))"

definition nullifierExists :: "CTxMemPool \<Rightarrow> uint256 \<Rightarrow> ShieldedType \<Rightarrow> error + bool" where
  "nullifierExists pool nf type =
     (case type of
        SPROUT \<Rightarrow> Inr (map_of (mapSproutNullifiers pool) nf \<noteq> None)
      | SAPLING \<Rightarrow> Inr (map_of (mapSaplingNullifiers pool) nf \<noteq> None)
      | ORCHARD \<Rightarrow> Inr (map_of (mapOrchardNullifiers pool) nf \<noteq> None)
      | OTHER_TYPE \<Rightarrow> Inl (runtime_error ''Unknown nullifier type''))"

text \<open>
  \<open>CCoinsViewMemPool::GetCoins\<close>. The coins type, its constructor \<^verbatim>\<open>CCoins(tx, height)\<close>,
  \<^verbatim>\<open>IsPruned\<close>, the constant \<^verbatim>\<open>MEMPOOL_HEIGHT\<close> and the base view are declared outside
  \<^verbatim>\<open>txmempool.cpp\<close> and are parameters. \<open>coins\<close> is the caller's out-parameter; the
  result is the returned flag and the out-parameter afterwards.
\<close>

definition GetCoins ::
  "(CTransaction \<Rightarrow> nat \<Rightarrow> 'coins) \<Rightarrow> nat \<Rightarrow> ('coins \<Rightarrow> bool)
     \<Rightarrow> (uint256 \<Rightarrow> 'coins \<Rightarrow> bool \<times> 'coins) \<Rightarrow> CTxMemPool \<Rightarrow> uint256 \<Rightarrow> 'coins
     \<Rightarrow> bool \<times> 'coins" where
  "GetCoins CCoins MEMPOOL_HEIGHT IsPruned base_GetCoins mempool txid coins =
     (case get mempool txid of
        Some t \<Rightarrow> (True, CCoins t MEMPOOL_HEIGHT)
      | None \<Rightarrow>
          (let (found, coins') = base_GetCoins txid coins
           in (found \<and> \<not> IsPruned coins', coins')))"



section \<open>Pool states related by removals\<close>

text \<open>
  \<open>shrinks p p'\<close>: \<open>p'\<close> keeps a sub-list of the entries of \<open>p\<close>, unchanged and in order,
  its spend, nullifier and delta maps hold only rows of \<open>p\<close>, and the estimator has
  received nothing but \<open>removeTx\<close> calls since \<open>p\<close>.
\<close>

definition shrinks :: "CTxMemPool \<Rightarrow> CTxMemPool \<Rightarrow> bool" where
  "shrinks p p' \<longleftrightarrow>
     (\<exists>P. mapTx p' = filter P (mapTx p))
     \<and> map_of (mapNextTx p') \<subseteq>\<^sub>m map_of (mapNextTx p)
     \<and> map_of (mapSproutNullifiers p') \<subseteq>\<^sub>m map_of (mapSproutNullifiers p)
     \<and> map_of (mapSaplingNullifiers p') \<subseteq>\<^sub>m map_of (mapSaplingNullifiers p)
     \<and> map_of (mapOrchardNullifiers p') \<subseteq>\<^sub>m map_of (mapOrchardNullifiers p)
     \<and> map_of (mapDeltas p') \<subseteq>\<^sub>m map_of (mapDeltas p)
     \<and> (\<exists>hs. minerPolicyEstimator p' = minerPolicyEstimator p @ map removeTx hs)"

section \<open>Conflicts and index consistency\<close>

text \<open>
  \<open>overlaps t u\<close>: the two transactions share a transparent input or a Sprout, Sapling or
  Orchard nullifier. \<open>conflicts_with t e\<close>: the entry overlaps \<open>t\<close> and is not \<open>t\<close>.
\<close>

definition overlaps :: "CTransaction \<Rightarrow> CTransaction \<Rightarrow> bool" where
  "overlaps t u \<longleftrightarrow>
     set (map prevout (vin t)) \<inter> set (map prevout (vin u)) \<noteq> {}
     \<or> set (sprout_nullifiers t) \<inter> set (sprout_nullifiers u) \<noteq> {}
     \<or> set (sapling_nullifiers t) \<inter> set (sapling_nullifiers u) \<noteq> {}
     \<or> set (orchard_nullifiers t) \<inter> set (orchard_nullifiers u) \<noteq> {}"

definition conflicts_with :: "CTransaction \<Rightarrow> CTxMemPoolEntry \<Rightarrow> bool" where
  "conflicts_with t e \<longleftrightarrow> overlaps t (GetTx e) \<and> GetHash (GetTx e) \<noteq> GetHash t"

text \<open>
  Invariants 1 and 3 of the data model, from the entries to the rows: every input and
  every nullifier of every entry has its row, and the row points to the entry's
  transaction.
\<close>

definition entry_indexed :: "CTxMemPool \<Rightarrow> CTxMemPoolEntry \<Rightarrow> bool" where
  "entry_indexed p e \<longleftrightarrow>
     entry_spends_marked p e
     \<and> (\<forall>nf \<in> set (sprout_nullifiers (GetTx e)). map_of (mapSproutNullifiers p) nf = Some (GetTx e))
     \<and> (\<forall>nf \<in> set (sapling_nullifiers (GetTx e)). map_of (mapSaplingNullifiers p) nf = Some (GetTx e))
     \<and> (\<forall>nf \<in> set (orchard_nullifiers (GetTx e)). map_of (mapOrchardNullifiers p) nf = Some (GetTx e))"

definition pool_indexed :: "CTxMemPool \<Rightarrow> bool" where
  "pool_indexed p \<longleftrightarrow> (\<forall>e \<in> set (mapTx p). entry_indexed p e)"

text \<open>
  Invariants 2 and 3, from the rows to the entries: every row points to the transaction of
  an entry of the pool that has the row's key as the input at the row's position, or
  among its nullifiers.
\<close>

definition rows_sound :: "CTxMemPool \<Rightarrow> bool" where
  "rows_sound p \<longleftrightarrow>
     (\<forall>r \<in> set (mapNextTx p).
        (\<exists>e \<in> set (mapTx p). GetTx e = ptx (snd r))
        \<and> ip_n (snd r) < length (vin (ptx (snd r)))
        \<and> prevout (vin (ptx (snd r)) ! ip_n (snd r)) = fst r)
     \<and> (\<forall>r \<in> set (mapSproutNullifiers p).
        (\<exists>e \<in> set (mapTx p). GetTx e = snd r) \<and> fst r \<in> set (sprout_nullifiers (snd r)))
     \<and> (\<forall>r \<in> set (mapSaplingNullifiers p).
        (\<exists>e \<in> set (mapTx p). GetTx e = snd r) \<and> fst r \<in> set (sapling_nullifiers (snd r)))
     \<and> (\<forall>r \<in> set (mapOrchardNullifiers p).
        (\<exists>e \<in> set (mapTx p). GetTx e = snd r) \<and> fst r \<in> set (orchard_nullifiers (snd r)))"

text \<open>The unique index of \<open>mapTx\<close>: no two entries have the same txid.\<close>

definition txids_distinct :: "CTxMemPool \<Rightarrow> bool" where
  "txids_distinct p \<longleftrightarrow> distinct (map (\<lambda>e. GetHash (GetTx e)) (mapTx p))"

text \<open>A pool whose spend and nullifier maps agree with its entries, both ways.\<close>

definition pool_consistent :: "CTxMemPool \<Rightarrow> bool" where
  "pool_consistent p \<longleftrightarrow> pool_indexed p \<and> rows_sound p \<and> txids_distinct p"

text \<open>\<open>spends_output e t\<close>: an input of the entry \<open>e\<close> names an output that \<open>t\<close> has.\<close>

definition spends_output :: "CTxMemPoolEntry \<Rightarrow> CTransaction \<Rightarrow> bool" where
  "spends_output e t \<longleftrightarrow>
     (\<exists>txin \<in> set (vin (GetTx e)).
        op_hash (prevout txin) = GetHash t \<and> op_n (prevout txin) < length (vout t))"

text \<open>
  The txids reachable from the txids \<open>R\<close> by following spends among the entries \<open>m\<close>: an
  entry of \<open>m\<close> that spends an output of an entry of \<open>m\<close> with a reachable txid is
  reachable.
\<close>

inductive_set reach :: "CTxMemPoolEntry list \<Rightarrow> uint256 set \<Rightarrow> uint256 set"
  for m :: "CTxMemPoolEntry list" and R :: "uint256 set" where
  root: "h \<in> R \<Longrightarrow> h \<in> reach m R"
| spend: "h \<in> reach m R \<Longrightarrow> par \<in> set m \<Longrightarrow> GetHash (GetTx par) = h \<Longrightarrow> e \<in> set m
          \<Longrightarrow> spends_output e (GetTx par) \<Longrightarrow> GetHash (GetTx e) \<in> reach m R"

text \<open>The txids of the entries among \<open>m\<close> that conflict with \<open>t\<close>.\<close>

definition conflict_roots :: "CTransaction \<Rightarrow> CTxMemPoolEntry list \<Rightarrow> uint256 set" where
  "conflict_roots t m = (\<lambda>c. GetHash (GetTx c)) ` set (filter (conflicts_with t) m)"

text \<open>
  \<open>closed_removal p p'\<close>: whenever an entry of \<open>p\<close> is missing from \<open>p'\<close>, the entries of
  \<open>p\<close> that spend one of its outputs are missing from \<open>p'\<close> as well.
\<close>

definition closed_removal :: "CTxMemPool \<Rightarrow> CTxMemPool \<Rightarrow> bool" where
  "closed_removal p p' \<longleftrightarrow>
     (\<forall>par \<in> set (mapTx p). \<forall>e \<in> set (mapTx p).
        par \<notin> set (mapTx p') \<and> spends_output e (GetTx par) \<longrightarrow> e \<notin> set (mapTx p'))"

text \<open>
  \<open>removal st st'\<close>, for pairs of a pool and an out-list: the pool of \<open>st'\<close> is the pool of
  \<open>st\<close> with entries removed together with the entries that spend their outputs, and the
  out-list of \<open>st'\<close> is that of \<open>st\<close> followed by the transactions of the entries removed.
\<close>

definition removal ::
  "CTxMemPool \<times> CTransaction list \<Rightarrow> CTxMemPool \<times> CTransaction list \<Rightarrow> bool" where
  "removal st st' \<longleftrightarrow>
     shrinks (fst st) (fst st') \<and> closed_removal (fst st) (fst st')
     \<and> (\<exists>R. snd st' = snd st @ R
            \<and> set R = GetTx ` (set (mapTx (fst st)) - set (mapTx (fst st'))))"

section \<open>Example transactions and pools\<close>

definition mk_tx :: "uint256 \<Rightarrow> COutPoint list \<Rightarrow> nat \<Rightarrow> CTransaction" where
  "mk_tx h ins nout =
     \<lparr>GetHash = h, vin = map (\<lambda>p. \<lparr>prevout = p\<rparr>) ins,
      vout = replicate nout \<lparr>nValue = 10\<rparr>, vJoinSplit = [], vShieldedSpend = [],
      GetOrchardBundle = \<lparr>GetNullifiers = []\<rparr>\<rparr>"

definition mk_entry :: "CTransaction \<Rightarrow> CAmount \<Rightarrow> 64 word \<Rightarrow> CTxMemPoolEntry" where
  "mk_entry t fee sz =
     \<lparr>GetTx = t, nFee = fee, nTxSize = sz, nModSize = sz, nUsageSize = sz, nTime = 0,
      dPriority = 0, nHeight = 1, hadNoDependencies = True, spendsCoinbase = False,
      sigOpCount = 0, nBranchId = 0, feeDelta = 0\<rparr>"

definition empty_pool :: CTxMemPool where
  "empty_pool =
     \<lparr>nTransactionsUpdated = 0, nCheckFrequency = 0, totalTxSize = 0, cachedInnerUsage = 0,
      mapTx = [], mapNextTx = [], mapSproutNullifiers = [], mapSaplingNullifiers = [],
      mapOrchardNullifiers = [], mapRecentlyAddedTx = [], nRecentlyAddedSequence = 0,
      mapDeltas = [], weightedTxTree = [], minerPolicyEstimator = [], mapAddress = [],
      mapAddressInserted = [], mapSpent = [], mapSpentInserted = [],
      fAddressIndex = False, fSpentIndex = False\<rparr>"

text \<open>
  \<open>tx_x\<close> spends the confirmed outpoint \<open>(1, 0)\<close>; \<open>tx_y\<close> spends output 0 of \<open>tx_x\<close>;
  \<open>tx_x'\<close> is another transaction that spends \<open>(1, 0)\<close>.
\<close>

definition tx_x :: CTransaction where
  "tx_x = mk_tx 10 [COutPoint 1 0] 1"

definition tx_y :: CTransaction where
  "tx_y = mk_tx 11 [COutPoint 10 0] 1"

definition tx_x' :: CTransaction where
  "tx_x' = mk_tx 12 [COutPoint 1 0] 1"

definition entry_x :: CTxMemPoolEntry where
  "entry_x = mk_entry tx_x 1 100"

definition entry_y :: CTxMemPoolEntry where
  "entry_y = mk_entry tx_y 3 100"

definition pool_xy :: CTxMemPool where
  "pool_xy = snd (addUnchecked 11 entry_y True (snd (addUnchecked 10 entry_x True empty_pool)))"

definition pool_y :: CTxMemPool where
  "pool_y = snd (addUnchecked 11 entry_y True empty_pool)"

text \<open>An expiry predicate for the examples: only txid 10 expires, above height 5.\<close>

definition ex_expired :: "CTransaction \<Rightarrow> nat \<Rightarrow> bool" where
  "ex_expired t h = (GetHash t = 10 \<and> 5 < h)"

text \<open>
  \<open>tx_sapling\<close> has one Sapling spend (anchor 7, nullifier 100); \<open>tx_orchard\<close> has one
  Orchard nullifier (200). \<open>pool_cleared\<close> is the pool after admitting \<open>tx_sapling\<close> and
  calling \<open>clear\<close>; \<open>pool_stale\<close> is a pool with sanity checks switched on, after
  admitting \<open>tx_orchard\<close> and calling \<open>clear\<close>.
\<close>

definition tx_sapling :: CTransaction where
  "tx_sapling =
     \<lparr>GetHash = 20, vin = [], vout = [\<lparr>nValue = 10\<rparr>], vJoinSplit = [],
      vShieldedSpend = [\<lparr>spend_anchor = 7, spend_nullifier = 100\<rparr>],
      GetOrchardBundle = \<lparr>GetNullifiers = []\<rparr>\<rparr>"

definition tx_orchard :: CTransaction where
  "tx_orchard =
     \<lparr>GetHash = 21, vin = [], vout = [\<lparr>nValue = 10\<rparr>], vJoinSplit = [],
      vShieldedSpend = [], GetOrchardBundle = \<lparr>GetNullifiers = [200]\<rparr>\<rparr>"

definition pool_cleared :: CTxMemPool where
  "pool_cleared = clear (snd (addUnchecked 20 (mk_entry tx_sapling 1 100) True empty_pool))"

definition pool_orchard :: CTxMemPool where
  "pool_orchard = snd (addUnchecked 21 (mk_entry tx_orchard 1 100) True empty_pool)"

definition pool_stale :: CTxMemPool where
  "pool_stale =
     clear (snd (addUnchecked 21 (mk_entry tx_orchard 1 100) True
       (empty_pool\<lparr>nCheckFrequency := 4294967295\<rparr>)))"

text \<open>
  An instance: coins are the pair of an output count and a height, pruned when the count
  is 0; the base view knows txid 99 with one output and txid 98 pruned, and claims txid 10
  pruned as well.
\<close>

definition ex_coins :: "CTransaction \<Rightarrow> nat \<Rightarrow> nat \<times> nat" where
  "ex_coins t h = (length (vout t), h)"

definition ex_base :: "uint256 \<Rightarrow> nat \<times> nat \<Rightarrow> bool \<times> (nat \<times> nat)" where
  "ex_base txid coins =
     (if txid = 99 then (True, (1, 5))
      else if txid = 98 \<or> txid = 10 then (True, (0, 5))
      else (False, coins))"

definition by_fee :: "CTxMemPoolEntry \<Rightarrow> CTxMemPoolEntry \<Rightarrow> bool" where
  "by_fee a b = (nFee b < nFee a)"

section \<open>Queries\<close>

text \<open>
  C10. \<open>CompareDepthAndScore a b\<close> is false whenever \<open>a\<close> is not in the pool, whatever \<open>b\<close>
  is; it is true when \<open>a\<close> is in the pool and \<open>b\<close> is not; when both are in the pool it is
  the score comparator applied to the two entries, and nothing else (no depth) is read.
\<close>

theorem CompareDepthAndScore_cases:
  "(mapTx_find (mapTx pool) hasha = None \<longrightarrow> \<not> CompareDepthAndScore cmp pool hasha hashb)
   \<and> (mapTx_find (mapTx pool) hasha \<noteq> None \<and> mapTx_find (mapTx pool) hashb = None
        \<longrightarrow> CompareDepthAndScore cmp pool hasha hashb)
   \<and> (\<forall>i j. mapTx_find (mapTx pool) hasha = Some i \<and> mapTx_find (mapTx pool) hashb = Some j
        \<longrightarrow> CompareDepthAndScore cmp pool hasha hashb = cmp i j)"
  by (auto simp: CompareDepthAndScore_def split: option.splits)

lemma pool_xy_find:
  "mapTx_find (mapTx pool_xy) 10 = Some entry_x"
  "mapTx_find (mapTx pool_xy) 11 = Some entry_y"
  "mapTx_find (mapTx pool_xy) 99 = None"
  by code_simp+

theorem CompareDepthAndScore_cases_witness:
  "mapTx_find (mapTx pool_xy) 99 = None \<and> \<not> CompareDepthAndScore by_fee pool_xy 99 10
   \<and> mapTx_find (mapTx pool_xy) 10 = Some entry_x \<and> CompareDepthAndScore by_fee pool_xy 10 99
   \<and> mapTx_find (mapTx pool_xy) 11 = Some entry_y
   \<and> CompareDepthAndScore by_fee pool_xy 11 10 = by_fee entry_y entry_x
   \<and> CompareDepthAndScore by_fee pool_xy 11 10"
proof -
  have "by_fee entry_y entry_x" by code_simp
  then show ?thesis
    using CompareDepthAndScore_cases [where pool = pool_xy and hasha = 99 and hashb = 10 and cmp = by_fee]
      CompareDepthAndScore_cases [where pool = pool_xy and hasha = 10 and hashb = 99 and cmp = by_fee]
      CompareDepthAndScore_cases [where pool = pool_xy and hasha = 11 and hashb = 10 and cmp = by_fee]
    by (simp add: pool_xy_find)
qed

section \<open>The coin view overlay\<close>

text \<open>
  C7. If the pool contains \<open>txid\<close>, \<open>GetCoins\<close> succeeds with the coins built from the
  pool's transaction at \<open>MEMPOOL_HEIGHT\<close>, whatever the base view holds. Otherwise it
  succeeds exactly when the base view succeeds with coins that are not pruned, and the
  coins are then the base view's.
\<close>

theorem GetCoins_overlay:
  "(\<forall>e. mapTx_find (mapTx pool) txid = Some e \<longrightarrow>
       GetCoins C H P base pool txid coins = (True, C (GetTx e) H))
   \<and> (mapTx_find (mapTx pool) txid = None \<longrightarrow>
       GetCoins C H P base pool txid coins
         = (fst (base txid coins) \<and> \<not> P (snd (base txid coins)), snd (base txid coins)))"
  by (auto simp: GetCoins_def get_def split: option.splits prod.splits)

theorem GetCoins_overlay_witness:
  "mapTx_find (mapTx pool_xy) 10 = Some entry_x
   \<and> GetCoins ex_coins 2147483647 (\<lambda>c. fst c = 0) ex_base pool_xy 10 (0, 0) = (True, (1, 2147483647))
   \<and> mapTx_find (mapTx pool_xy) 99 = None
   \<and> GetCoins ex_coins 2147483647 (\<lambda>c. fst c = 0) ex_base pool_xy 99 (0, 0) = (True, (1, 5))
   \<and> fst (GetCoins ex_coins 2147483647 (\<lambda>c. fst c = 0) ex_base pool_xy 98 (0, 0)) = False
   \<and> fst (GetCoins ex_coins 2147483647 (\<lambda>c. fst c = 0) ex_base pool_xy 97 (0, 0)) = False"
proof -
  have f: "mapTx_find (mapTx pool_xy) 98 = None" "mapTx_find (mapTx pool_xy) 97 = None"
    by code_simp+
  have v: "length (vout (GetTx entry_x)) = 1"
    by (simp add: entry_x_def mk_entry_def tx_x_def mk_tx_def)
  show ?thesis
    using GetCoins_overlay [where pool = pool_xy and txid = 10 and C = ex_coins and H = 2147483647
        and P = "\<lambda>c. fst c = 0" and base = ex_base and coins = "(0, 0)"]
      GetCoins_overlay [where pool = pool_xy and txid = 99 and C = ex_coins and H = 2147483647
        and P = "\<lambda>c. fst c = 0" and base = ex_base and coins = "(0, 0)"]
      GetCoins_overlay [where pool = pool_xy and txid = 98 and C = ex_coins and H = 2147483647
        and P = "\<lambda>c. fst c = 0" and base = ex_base and coins = "(0, 0)"]
      GetCoins_overlay [where pool = pool_xy and txid = 97 and C = ex_coins and H = 2147483647
        and P = "\<lambda>c. fst c = 0" and base = ex_base and coins = "(0, 0)"]
    by (simp add: pool_xy_find f v ex_coins_def ex_base_def)
qed

section \<open>Prioritisation and admission\<close>






section \<open>Removal\<close>

lemma mapTx_removeAddressIndex [simp]: "mapTx (removeAddressIndex h pool) = mapTx pool"
  by (simp add: removeAddressIndex_def split: option.split)

lemma mapTx_removeSpentIndex [simp]: "mapTx (removeSpentIndex h pool) = mapTx pool"
  by (simp add: removeSpentIndex_def split: option.split)

lemma mapTx_remove_entry [simp]: "mapTx (remove_entry h e pool) = mapTx_erase h (mapTx pool)"
  by (simp add: remove_entry_def Let_def)

lemma mapTx_find_Some_set:
  "mapTx_find m h = Some e \<Longrightarrow> e \<in> set m \<and> GetHash (GetTx e) = h"
  unfolding mapTx_find_def by (induction m) (auto split: if_splits)

lemma mapTx_find_None_iff:
  "mapTx_find m h = None \<longleftrightarrow> (\<forall>e \<in> set m. GetHash (GetTx e) \<noteq> h)"
  unfolding mapTx_find_def by (auto simp: find_None_iff)

lemma map_of_fold_delete:
  "map_of (fold AList.delete ks m) k = (if k \<in> set ks then None else map_of m k)"
  by (induction ks arbitrary: m) (auto simp: delete_conv')

lemma fold_delete_le: "map_of (fold AList.delete ks m) \<subseteq>\<^sub>m map_of m"
  by (simp add: map_le_def map_of_fold_delete dom_def)

lemma removeAddressIndex_fields [simp]:
  "mapNextTx (removeAddressIndex h p) = mapNextTx p"
  "mapSproutNullifiers (removeAddressIndex h p) = mapSproutNullifiers p"
  "mapSaplingNullifiers (removeAddressIndex h p) = mapSaplingNullifiers p"
  "mapOrchardNullifiers (removeAddressIndex h p) = mapOrchardNullifiers p"
  "mapDeltas (removeAddressIndex h p) = mapDeltas p"
  "minerPolicyEstimator (removeAddressIndex h p) = minerPolicyEstimator p"
  "fSpentIndex (removeAddressIndex h p) = fSpentIndex p"
  by (simp_all add: removeAddressIndex_def split: option.split)

lemma removeSpentIndex_fields [simp]:
  "mapNextTx (removeSpentIndex h p) = mapNextTx p"
  "mapSproutNullifiers (removeSpentIndex h p) = mapSproutNullifiers p"
  "mapSaplingNullifiers (removeSpentIndex h p) = mapSaplingNullifiers p"
  "mapOrchardNullifiers (removeSpentIndex h p) = mapOrchardNullifiers p"
  "mapDeltas (removeSpentIndex h p) = mapDeltas p"
  "minerPolicyEstimator (removeSpentIndex h p) = minerPolicyEstimator p"
  by (simp_all add: removeSpentIndex_def split: option.split)

lemma remove_entry_mapNextTx:
  "mapNextTx (remove_entry h e p) = fold AList.delete (map prevout (vin (GetTx e))) (mapNextTx p)"
  by (simp add: remove_entry_def Let_def fold_map comp_def)

lemma remove_entry_sprout:
  "mapSproutNullifiers (remove_entry h e p) = fold AList.delete (sprout_nullifiers (GetTx e)) (mapSproutNullifiers p)"
  by (simp add: remove_entry_def Let_def)

lemma remove_entry_sapling:
  "mapSaplingNullifiers (remove_entry h e p) = fold AList.delete (sapling_nullifiers (GetTx e)) (mapSaplingNullifiers p)"
  by (simp add: remove_entry_def Let_def)

lemma remove_entry_orchard:
  "mapOrchardNullifiers (remove_entry h e p) = fold AList.delete (orchard_nullifiers (GetTx e)) (mapOrchardNullifiers p)"
  by (simp add: remove_entry_def Let_def)

lemma remove_entry_mapDeltas: "mapDeltas (remove_entry h e p) = mapDeltas p"
  by (simp add: remove_entry_def Let_def)

lemma remove_entry_estimator:
  "minerPolicyEstimator (remove_entry h e p) = minerPolicyEstimator p @ [removeTx h]"
  by (simp add: remove_entry_def Let_def)

lemmas remove_entry_fields = remove_entry_mapNextTx remove_entry_sprout remove_entry_sapling
  remove_entry_orchard remove_entry_mapDeltas remove_entry_estimator

lemma shrinks_refl: "shrinks p p"
proof -
  have "mapTx p = filter (\<lambda>_. True) (mapTx p)" by simp
  then have "\<exists>P. mapTx p = filter P (mapTx p)" by blast
  moreover have "minerPolicyEstimator p = minerPolicyEstimator p @ map removeTx []" by simp
  then have "\<exists>hs. minerPolicyEstimator p = minerPolicyEstimator p @ map removeTx hs" by blast
  ultimately show ?thesis unfolding shrinks_def by simp
qed

lemma shrinks_trans:
  assumes "shrinks p q" and "shrinks q r"
  shows "shrinks p r"
proof -
  from assms obtain P Q where "mapTx q = filter P (mapTx p)" "mapTx r = filter Q (mapTx q)"
    unfolding shrinks_def by blast
  then have "mapTx r = filter (\<lambda>x. P x \<and> Q x) (mapTx p)" by (simp add: conj_commute)
  then have 1: "\<exists>P. mapTx r = filter P (mapTx p)" by blast
  from assms obtain hs hs' where "minerPolicyEstimator q = minerPolicyEstimator p @ map removeTx hs"
    "minerPolicyEstimator r = minerPolicyEstimator q @ map removeTx hs'"
    unfolding shrinks_def by blast
  then have "minerPolicyEstimator r = minerPolicyEstimator p @ map removeTx (hs @ hs')" by simp
  then have 2: "\<exists>hs. minerPolicyEstimator r = minerPolicyEstimator p @ map removeTx hs" by blast
  from assms 1 2 show ?thesis
    unfolding shrinks_def by (blast intro: map_le_trans)
qed

lemma shrinks_remove_entry: "shrinks p (remove_entry h e p)"
proof -
  have "minerPolicyEstimator (remove_entry h e p) = minerPolicyEstimator p @ map removeTx [h]"
    by (simp add: remove_entry_estimator)
  then have "\<exists>hs. minerPolicyEstimator (remove_entry h e p) = minerPolicyEstimator p @ map removeTx hs"
    by blast
  moreover have "\<exists>P. mapTx (remove_entry h e p) = filter P (mapTx p)"
    by (auto simp: mapTx_erase_def)
  ultimately show ?thesis
    unfolding shrinks_def
    by (simp add: remove_entry_mapNextTx remove_entry_sprout remove_entry_sapling
        remove_entry_orchard remove_entry_mapDeltas fold_delete_le)
qed

lemma remove_loop_shrinks:
  "remove_loop r q p rm = (p', rm') \<Longrightarrow> shrinks p p'"
proof (induction r q p rm rule: remove_loop.induct)
  case (1 fRecursive pool removed)
  then show ?case by (simp add: shrinks_refl)
next
  case (2 fRecursive hash txToRemove pool removed)
  show ?case
  proof (cases "mapTx_find (mapTx pool) hash")
    case None
    with "2.prems" have "remove_loop fRecursive txToRemove pool removed = (p', rm')" by simp
    with None show ?thesis by (rule "2.IH"(1))
  next
    case (Some e)
    with "2.prems" have "remove_loop fRecursive
        (txToRemove @ (if fRecursive then spenders_of (mapNextTx pool) hash (length (vout (GetTx e))) else []))
        (remove_entry hash e pool) (removed @ [GetTx e]) = (p', rm')" by simp
    with Some have "shrinks (remove_entry hash e pool) p'" by (rule "2.IH"(2))
    with shrinks_remove_entry show ?thesis by (rule shrinks_trans)
  qed
qed

lemma shrinks_absent:
  "shrinks p p' \<Longrightarrow> \<not> exists_tx p h \<Longrightarrow> \<not> exists_tx p' h"
  unfolding shrinks_def exists_tx_def mapTx_count_def
  by (auto simp: mapTx_find_None_iff)

lemma remove_entry_absent: "\<not> exists_tx (remove_entry h e p) h"
  by (simp add: exists_tx_def mapTx_count_def mapTx_find_None_iff mapTx_erase_def)

lemma remove_loop_absent:
  "remove_loop r q p rm = (p', rm') \<Longrightarrow> h \<in> set q \<Longrightarrow> \<not> exists_tx p' h"
proof (induction r q p rm rule: remove_loop.induct)
  case (1 fRecursive pool removed)
  then show ?case by simp
next
  case (2 fRecursive hash txToRemove pool removed)
  show ?case
  proof (cases "mapTx_find (mapTx pool) hash")
    case None
    with "2.prems"(1) have run: "remove_loop fRecursive txToRemove pool removed = (p', rm')" by simp
    show ?thesis
    proof (cases "h = hash")
      case True
      from None have "\<not> exists_tx pool hash" by (simp add: exists_tx_def mapTx_count_def)
      moreover from run have "shrinks pool p'" by (rule remove_loop_shrinks)
      ultimately show ?thesis using True shrinks_absent by blast
    next
      case False
      with "2.prems"(2) have "h \<in> set txToRemove" by simp
      with None run show ?thesis by (rule "2.IH"(1))
    qed
  next
    case (Some e)
    let ?q = "txToRemove @ (if fRecursive then spenders_of (mapNextTx pool) hash (length (vout (GetTx e))) else [])"
    from "2.prems"(1) Some have run: "remove_loop fRecursive ?q (remove_entry hash e pool) (removed @ [GetTx e]) = (p', rm')"
      by simp
    show ?thesis
    proof (cases "h = hash")
      case True
      from run have "shrinks (remove_entry hash e pool) p'" by (rule remove_loop_shrinks)
      then show ?thesis using True remove_entry_absent shrinks_absent by blast
    next
      case False
      with "2.prems"(2) have "h \<in> set ?q" by simp
      with Some run show ?thesis by (rule "2.IH"(2))
    qed
  qed
qed

lemma remove_loop_noop:
  "\<forall>h \<in> set q. \<not> exists_tx p h \<Longrightarrow> remove_loop r q p rm = (p, rm)"
proof (induction q)
  case Nil
  show ?case by simp
next
  case (Cons a q)
  then have "mapTx_find (mapTx p) a = None" and "remove_loop r q p rm = (p, rm)"
    by (simp_all add: exists_tx_def mapTx_count_def)
  then show ?case by simp
qed


lemma set_spenders_of:
  "set (spenders_of m h k) =
     {x. \<exists>i ip. i < k \<and> map_of m (COutPoint h i) = Some ip \<and> x = GetHash (ptx ip)}"
proof (induction k)
  case 0
  show ?case by (simp add: spenders_of_def List.map_filter_def)
next
  case (Suc k)
  have "spenders_of m h (Suc k) =
      spenders_of m h k @
        (case map_of m (COutPoint h k) of None \<Rightarrow> [] | Some ip \<Rightarrow> [GetHash (ptx ip)])"
    by (simp add: spenders_of_def List.map_filter_def split: option.split)
  then show ?case
    using Suc by (auto simp: less_Suc_eq split: option.splits)
qed

lemma fold_tree_remove:
  "fold (\<lambda>t. tree_remove (GetHash t)) rm T = filter (\<lambda>i. wti_txId i \<notin> GetHash ` set rm) T"
proof (induction rm arbitrary: T)
  case Nil
  show ?case by simp
next
  case (Cons a rm)
  have "fold (\<lambda>t. tree_remove (GetHash t)) (a # rm) T =
      filter (\<lambda>i. wti_txId i \<notin> GetHash ` set rm) (tree_remove (GetHash a) T)"
    by (simp add: Cons.IH)
  also have "\<dots> = filter (\<lambda>i. wti_txId i \<notin> GetHash ` set (a # rm)) T"
    unfolding tree_remove_def by (auto intro: filter_cong)
  finally show ?case .
qed

lemma exists_tx_tree [simp]: "exists_tx (p\<lparr>weightedTxTree := X\<rparr>) h = exists_tx p h"
  by (simp add: exists_tx_def)

lemma shrinks_tree [simp]: "shrinks p (p'\<lparr>weightedTxTree := X\<rparr>) = shrinks p p'"
  by (simp add: shrinks_def)

lemma remove_tx_run:
  obtains p1 rm1 where
    "remove_loop r (initial_queue t r pool) pool rm = (p1, rm1)"
    "remove_tx t rm r pool =
       (p1\<lparr>weightedTxTree := fold (\<lambda>t. tree_remove (GetHash t)) rm1 (weightedTxTree p1)\<rparr>, rm1)"
proof (cases "remove_loop r (initial_queue t r pool) pool rm")
  case (Pair p1 rm1)
  then have "remove_tx t rm r pool =
       (p1\<lparr>weightedTxTree := fold (\<lambda>t. tree_remove (GetHash t)) rm1 (weightedTxTree p1)\<rparr>, rm1)"
    unfolding remove_tx_def initial_queue_def Let_def by (simp only: prod.case)
  with Pair show ?thesis by (rule that)
qed

lemma remove_tx_shrinks: "shrinks pool (fst (remove_tx t rm r pool))"
proof -
  obtain p1 rm1 where run: "remove_loop r (initial_queue t r pool) pool rm = (p1, rm1)"
    and res: "remove_tx t rm r pool =
       (p1\<lparr>weightedTxTree := fold (\<lambda>t. tree_remove (GetHash t)) rm1 (weightedTxTree p1)\<rparr>, rm1)"
    by (rule remove_tx_run)
  from run have "shrinks pool p1" by (rule remove_loop_shrinks)
  then show ?thesis by (simp add: res)
qed

lemma remove_tx_absent: "\<not> exists_tx (fst (remove_tx t rm r pool)) (GetHash t)"
proof -
  obtain p1 rm1 where run: "remove_loop r (initial_queue t r pool) pool rm = (p1, rm1)"
    and res: "remove_tx t rm r pool =
       (p1\<lparr>weightedTxTree := fold (\<lambda>t. tree_remove (GetHash t)) rm1 (weightedTxTree p1)\<rparr>, rm1)"
    by (rule remove_tx_run)
  have "GetHash t \<in> set (initial_queue t r pool)" by (simp add: initial_queue_def)
  with run have "\<not> exists_tx p1 (GetHash t)" by (rule remove_loop_absent)
  then show ?thesis by (simp add: res)
qed

lemma shrinks_subset: "shrinks p p' \<Longrightarrow> set (mapTx p') \<subseteq> set (mapTx p)"
  unfolding shrinks_def by auto

lemma exists_tx_iff: "exists_tx p h \<longleftrightarrow> (\<exists>e \<in> set (mapTx p). GetHash (GetTx e) = h)"
  by (auto simp: exists_tx_def mapTx_count_def mapTx_find_None_iff)

lemma remove_all_shrinks: "shrinks pool (remove_all ts pool)"
proof (induction ts arbitrary: pool)
  case Nil
  show ?case by (simp add: remove_all_def shrinks_refl)
next
  case (Cons t ts)
  have "shrinks (fst (remove_tx t [] True pool)) (remove_all ts (fst (remove_tx t [] True pool)))"
    by (rule Cons.IH)
  with remove_tx_shrinks have "shrinks pool (remove_all ts (fst (remove_tx t [] True pool)))"
    by (rule shrinks_trans)
  then show ?case by (simp add: remove_all_def)
qed

lemma remove_all_absent: "t \<in> set ts \<Longrightarrow> \<not> exists_tx (remove_all ts pool) (GetHash t)"
proof (induction ts arbitrary: pool)
  case Nil
  then show ?case by simp
next
  case (Cons a ts)
  let ?p = "fst (remove_tx a [] True pool)"
  have step: "remove_all (a # ts) pool = remove_all ts ?p" by (simp add: remove_all_def)
  show ?case
  proof (cases "t \<in> set ts")
    case True
    then show ?thesis unfolding step by (rule Cons.IH)
  next
    case False
    with Cons.prems have "t = a" by simp
    then have "\<not> exists_tx ?p (GetHash t)" by (simp add: remove_tx_absent)
    with remove_all_shrinks show ?thesis unfolding step by (rule shrinks_absent)
  qed
qed

lemma removeExpired_fold:
  "fold (\<lambda>t (ids, p). (ids @ [GetHash t], fst (remove_tx t [] True p))) ts (ids0, pool)
     = (ids0 @ map GetHash ts, remove_all ts pool)"
  by (induction ts arbitrary: ids0 pool) (simp_all add: remove_all_def)

lemma spenders_shrinks:
  assumes "shrinks p p'"
  shows "set (spenders_of (mapNextTx p') h k) \<subseteq> set (spenders_of (mapNextTx p) h k)"
proof -
  from assms have le: "map_of (mapNextTx p') \<subseteq>\<^sub>m map_of (mapNextTx p)"
    by (simp add: shrinks_def)
  have "map_of (mapNextTx p) x = Some y" if "map_of (mapNextTx p') x = Some y" for x y
    using le that by (metis domI map_le_def)
  then show ?thesis unfolding set_spenders_of by blast
qed


lemma remove_tx_twice:
  assumes same: "\<forall>e \<in> set (mapTx pool). GetHash (GetTx e) = GetHash origTx \<longrightarrow> GetTx e = origTx"
    and first: "remove_tx origTx removed fRecursive pool = (pool1, removed1)"
  shows "remove_tx origTx removed1 fRecursive pool1 = (pool1, removed1)"
proof -
  let ?h = "GetHash origTx"
  let ?n = "length (vout origTx)"
  obtain p1 rm1 where run0: "remove_loop fRecursive (initial_queue origTx fRecursive pool) pool removed = (p1, rm1)"
    and res: "remove_tx origTx removed fRecursive pool =
       (p1\<lparr>weightedTxTree := fold (\<lambda>t. tree_remove (GetHash t)) rm1 (weightedTxTree p1)\<rparr>, rm1)"
    by (rule remove_tx_run)
  from res first have rm1: "rm1 = removed1"
    and pool1: "pool1 = p1\<lparr>weightedTxTree :=
        fold (\<lambda>t. tree_remove (GetHash t)) removed1 (weightedTxTree p1)\<rparr>"
    by simp_all
  from run0 rm1 have run: "remove_loop fRecursive (initial_queue origTx fRecursive pool) pool removed = (p1, removed1)"
    by simp
  have sh: "shrinks pool p1" using run by (rule remove_loop_shrinks)
  have "?h \<in> set (initial_queue origTx fRecursive pool)" by (simp add: initial_queue_def)
  with run have h_absent: "\<not> exists_tx p1 ?h" by (rule remove_loop_absent)
  have sp_absent: "\<not> exists_tx p1 x"
    if rec: fRecursive and x: "x \<in> set (spenders_of (mapNextTx p1) ?h ?n)" for x
  proof -
    from x sh have x0: "x \<in> set (spenders_of (mapNextTx pool) ?h ?n)"
      using spenders_shrinks by blast
    show ?thesis
    proof (cases "mapTx_find (mapTx pool) ?h")
      case None
      then have "x \<in> set (initial_queue origTx fRecursive pool)"
        using rec x0 by (simp add: initial_queue_def mapTx_count_def)
      with run show ?thesis by (rule remove_loop_absent)
    next
      case (Some e)
      then have "GetTx e = origTx" using same mapTx_find_Some_set by blast
      with Some run rec have run': "remove_loop fRecursive (spenders_of (mapNextTx pool) ?h ?n)
          (remove_entry ?h e pool) (removed @ [origTx]) = (p1, removed1)"
        by (simp add: initial_queue_def mapTx_count_def)
      from run' x0 show ?thesis by (rule remove_loop_absent)
    qed
  qed
  have "\<forall>x \<in> set (initial_queue origTx fRecursive pool1). \<not> exists_tx pool1 x"
    using h_absent sp_absent by (auto simp: pool1 initial_queue_def)
  then have "remove_loop fRecursive (initial_queue origTx fRecursive pool1) pool1 removed1
      = (pool1, removed1)"
    by (rule remove_loop_noop)
  moreover have "pool1\<lparr>weightedTxTree :=
        fold (\<lambda>t. tree_remove (GetHash t)) removed1 (weightedTxTree pool1)\<rparr> = pool1"
    by (simp add: pool1 fold_tree_remove)
  ultimately show ?thesis
    by (simp add: remove_tx_def)
qed

lemma remove_tx_nothing:
  assumes "\<not> exists_tx pool (GetHash origTx)"
    and "fRecursive \<longrightarrow> spenders_of (mapNextTx pool) (GetHash origTx) (length (vout origTx)) = []"
  shows "remove_tx origTx removed fRecursive pool =
     (pool\<lparr>weightedTxTree :=
             fold (\<lambda>t. tree_remove (GetHash t)) removed (weightedTxTree pool)\<rparr>, removed)"
proof -
  from assms have "\<forall>x \<in> set (initial_queue origTx fRecursive pool). \<not> exists_tx pool x"
    by (auto simp: initial_queue_def)
  then have "remove_loop fRecursive (initial_queue origTx fRecursive pool) pool removed
      = (pool, removed)"
    by (rule remove_loop_noop)
  then show ?thesis by (simp add: remove_tx_def)
qed

section \<open>Consistency under removal\<close>

lemma shrinks_remove_conflict: "shrinks (fst st) (fst (remove_conflict t it st))"
  by (simp add: remove_conflict_def shrinks_refl remove_tx_shrinks split: option.split)

lemma shrinks_fold:
  assumes "\<And>x st. shrinks (fst st) (fst (f x st))"
  shows "shrinks (fst st) (fst (fold f xs st))"
proof (induction xs arbitrary: st)
  case Nil
  show ?case by (simp add: shrinks_refl)
next
  case (Cons x xs)
  have "shrinks (fst st) (fst (f x st))" by (rule assms)
  moreover have "shrinks (fst (f x st)) (fst (fold f xs (f x st)))" by (rule Cons.IH)
  ultimately show ?case by (simp add: shrinks_trans)
qed

lemma ClearPrioritisation_shrinks: "shrinks p (ClearPrioritisation h p)"
proof -
  have "map_of (AList.delete h (mapDeltas p)) \<subseteq>\<^sub>m map_of (mapDeltas p)"
    by (simp add: map_le_def delete_conv' dom_def)
  then have "shrinks p (p\<lparr>mapDeltas := AList.delete h (mapDeltas p)\<rparr>) = shrinks p p"
    by (simp add: shrinks_def)
  then show ?thesis by (simp add: ClearPrioritisation_def shrinks_refl)
qed

lemma entry_spends_marked_iff:
  "entry_spends_marked p e \<longleftrightarrow>
     (\<forall>k < length (vin (GetTx e)).
        map_of (mapNextTx p) (prevout (vin (GetTx e) ! k)) = Some (CInPoint (GetTx e) k))"
proof -
  have "(case x of None \<Rightarrow> False | Some it3 \<Rightarrow> ptx it3 = t \<and> ip_n it3 = k) \<longleftrightarrow> x = Some (CInPoint t k)"
    for x t k
    by (cases x) (auto simp: CInPoint.expand)
  then show ?thesis
    by (auto simp add: entry_spends_marked_def list_all_iff)
qed

lemma indexed_spend_row:
  assumes "entry_indexed p e" and "op \<in> set (map prevout (vin (GetTx e)))"
  shows "\<exists>k. map_of (mapNextTx p) op = Some (CInPoint (GetTx e) k)"
proof -
  from assms(2) obtain k where "k < length (vin (GetTx e))" "op = prevout (vin (GetTx e) ! k)"
    by (auto simp: in_set_conv_nth)
  with assms(1) show ?thesis
    by (auto simp: entry_indexed_def entry_spends_marked_iff)
qed

lemma entry_indexed_remove_entry:
  assumes e0: "entry_indexed p e0"
    and e: "entry_indexed p e"
    and ne: "GetHash (GetTx e) \<noteq> GetHash (GetTx e0)"
  shows "entry_indexed (remove_entry h e0 p) e"
proof -
  have ne': "GetTx e \<noteq> GetTx e0" using ne by auto
  have spends: "entry_spends_marked (remove_entry h e0 p) e"
    unfolding entry_spends_marked_iff
  proof (intro allI impI)
    fix k assume k: "k < length (vin (GetTx e))"
    let ?op = "prevout (vin (GetTx e) ! k)"
    from e k have row: "map_of (mapNextTx p) ?op = Some (CInPoint (GetTx e) k)"
      by (simp add: entry_indexed_def entry_spends_marked_iff)
    have "?op \<notin> set (map prevout (vin (GetTx e0)))"
    proof
      assume "?op \<in> set (map prevout (vin (GetTx e0)))"
      with e0 obtain j where "map_of (mapNextTx p) ?op = Some (CInPoint (GetTx e0) j)"
        using indexed_spend_row by blast
      with row ne' show False by simp
    qed
    with row show "map_of (mapNextTx (remove_entry h e0 p)) ?op = Some (CInPoint (GetTx e) k)"
      by (simp add: remove_entry_mapNextTx map_of_fold_delete)
  qed
  have sprout: "map_of (mapSproutNullifiers (remove_entry h e0 p)) nf = Some (GetTx e)"
    if "nf \<in> set (sprout_nullifiers (GetTx e))" for nf
  proof -
    from e that have row: "map_of (mapSproutNullifiers p) nf = Some (GetTx e)"
      by (simp add: entry_indexed_def)
    have "nf \<notin> set (sprout_nullifiers (GetTx e0))"
      using e0 row ne' by (auto simp: entry_indexed_def)
    with row show ?thesis by (simp add: remove_entry_sprout map_of_fold_delete)
  qed
  have sapling: "map_of (mapSaplingNullifiers (remove_entry h e0 p)) nf = Some (GetTx e)"
    if "nf \<in> set (sapling_nullifiers (GetTx e))" for nf
  proof -
    from e that have row: "map_of (mapSaplingNullifiers p) nf = Some (GetTx e)"
      by (simp add: entry_indexed_def)
    have "nf \<notin> set (sapling_nullifiers (GetTx e0))"
      using e0 row ne' by (auto simp: entry_indexed_def)
    with row show ?thesis by (simp add: remove_entry_sapling map_of_fold_delete)
  qed
  have orchard: "map_of (mapOrchardNullifiers (remove_entry h e0 p)) nf = Some (GetTx e)"
    if "nf \<in> set (orchard_nullifiers (GetTx e))" for nf
  proof -
    from e that have row: "map_of (mapOrchardNullifiers p) nf = Some (GetTx e)"
      by (simp add: entry_indexed_def)
    have "nf \<notin> set (orchard_nullifiers (GetTx e0))"
      using e0 row ne' by (auto simp: entry_indexed_def)
    with row show ?thesis by (simp add: remove_entry_orchard map_of_fold_delete)
  qed
  from spends sprout sapling orchard show ?thesis
    unfolding entry_indexed_def by blast
qed

lemma pool_indexed_remove_entry:
  assumes "pool_indexed p" and "mapTx_find (mapTx p) h = Some e0"
  shows "pool_indexed (remove_entry h e0 p)"
proof -
  from assms(2) have e0: "e0 \<in> set (mapTx p)" and h: "GetHash (GetTx e0) = h"
    by (simp_all add: mapTx_find_Some_set)
  show ?thesis
    unfolding pool_indexed_def
  proof
    fix e assume "e \<in> set (mapTx (remove_entry h e0 p))"
    then have "e \<in> set (mapTx p)" and "GetHash (GetTx e) \<noteq> h"
      by (simp_all add: mapTx_erase_def)
    with assms(1) e0 h show "entry_indexed (remove_entry h e0 p) e"
      by (intro entry_indexed_remove_entry) (auto simp: pool_indexed_def)
  qed
qed

lemma remove_loop_indexed:
  "remove_loop r q p rm = (p', rm') \<Longrightarrow> pool_indexed p \<Longrightarrow> pool_indexed p'"
proof (induction r q p rm rule: remove_loop.induct)
  case (1 fRecursive pool removed)
  then show ?case by simp
next
  case (2 fRecursive hash txToRemove pool removed)
  show ?case
  proof (cases "mapTx_find (mapTx pool) hash")
    case None
    with "2.prems"(1) have "remove_loop fRecursive txToRemove pool removed = (p', rm')" by simp
    with None show ?thesis using "2.prems"(2) by (rule "2.IH"(1))
  next
    case (Some e)
    with "2.prems"(1) have "remove_loop fRecursive
        (txToRemove @ (if fRecursive then spenders_of (mapNextTx pool) hash (length (vout (GetTx e))) else []))
        (remove_entry hash e pool) (removed @ [GetTx e]) = (p', rm')" by simp
    moreover from "2.prems"(2) Some have "pool_indexed (remove_entry hash e pool)"
      by (rule pool_indexed_remove_entry)
    ultimately show ?thesis using Some "2.IH"(2) by blast
  qed
qed

lemma pool_indexed_tree [simp]: "pool_indexed (p\<lparr>weightedTxTree := X\<rparr>) = pool_indexed p"
  by (simp add: pool_indexed_def entry_indexed_def entry_spends_marked_def)

lemma remove_tx_indexed: "pool_indexed pool \<Longrightarrow> pool_indexed (fst (remove_tx t rm r pool))"
proof -
  assume i: "pool_indexed pool"
  obtain p1 rm1 where run: "remove_loop r (initial_queue t r pool) pool rm = (p1, rm1)"
    and res: "remove_tx t rm r pool =
       (p1\<lparr>weightedTxTree := fold (\<lambda>t. tree_remove (GetHash t)) rm1 (weightedTxTree p1)\<rparr>, rm1)"
    by (rule remove_tx_run)
  from run i have "pool_indexed p1" by (rule remove_loop_indexed)
  then show ?thesis by (simp add: res)
qed


lemma remove_conflict_indexed:
  "pool_indexed (fst st) \<Longrightarrow> pool_indexed (fst (remove_conflict t it st))"
  by (simp add: remove_conflict_def remove_tx_indexed split: option.split)

lemma remove_conflict_clears:
  assumes i: "entry_indexed (fst st) e"
    and l: "it = Some (GetTx e)"
    and e: "e \<in> set (mapTx (fst (remove_conflict t it st)))"
  shows "GetHash (GetTx e) = GetHash t"
proof (rule ccontr)
  assume "GetHash (GetTx e) \<noteq> GetHash t"
  then have "remove_conflict t it st = remove_tx (GetTx e) (snd st) True (fst st)"
    by (simp add: remove_conflict_def l tx_ne_def)
  then have "\<not> exists_tx (fst (remove_conflict t it st)) (GetHash (GetTx e))"
    by (simp add: remove_tx_absent)
  with e show False by (auto simp: exists_tx_iff)
qed

lemma conflict_phase:
  fixes look :: "CTxMemPool \<Rightarrow> 'k \<Rightarrow> CTransaction option" and keys :: "CTransaction \<Rightarrow> 'k set"
  assumes H: "\<And>p e k. entry_indexed p e \<Longrightarrow> k \<in> keys (GetTx e) \<Longrightarrow> look p k = Some (GetTx e)"
  shows "pool_indexed (fst st) \<Longrightarrow>
     pool_indexed (fst (fold (\<lambda>k st. remove_conflict t (look (fst st) k) st) ks st))
     \<and> (\<forall>e \<in> set (mapTx (fst (fold (\<lambda>k st. remove_conflict t (look (fst st) k) st) ks st))).
           \<forall>k \<in> set ks. k \<in> keys (GetTx e) \<longrightarrow> GetHash (GetTx e) = GetHash t)"
proof (induction ks arbitrary: st)
  case Nil
  then show ?case by simp
next
  case (Cons k ks)
  let ?f = "\<lambda>k st. remove_conflict t (look (fst st) k) st"
  let ?st1 = "remove_conflict t (look (fst st) k) st"
  let ?res = "fold ?f ks ?st1"
  from Cons.prems have i1: "pool_indexed (fst ?st1)" by (rule remove_conflict_indexed)
  from Cons.IH [OF i1] have ires: "pool_indexed (fst ?res)"
    and rest: "\<forall>e \<in> set (mapTx (fst ?res)). \<forall>k \<in> set ks. k \<in> keys (GetTx e) \<longrightarrow> GetHash (GetTx e) = GetHash t"
    by simp_all
  have sh: "shrinks (fst ?st1) (fst ?res)"
    by (rule shrinks_fold) (rule shrinks_remove_conflict)
  have first: "GetHash (GetTx e) = GetHash t"
    if e: "e \<in> set (mapTx (fst ?res))" and k: "k \<in> keys (GetTx e)" for e
  proof -
    from e sh have e1: "e \<in> set (mapTx (fst ?st1))" using shrinks_subset by blast
    with shrinks_remove_conflict have "e \<in> set (mapTx (fst st))" using shrinks_subset by blast
    with Cons.prems have ie: "entry_indexed (fst st) e" by (simp add: pool_indexed_def)
    from ie k have "look (fst st) k = Some (GetTx e)" by (rule H)
    with ie show ?thesis using e1 by (rule remove_conflict_clears)
  qed
  from ires rest first show ?case by auto
qed

lemma conflict_phase_noop:
  assumes "\<forall>k \<in> set ks. look pool k = None \<or> look pool k = Some t"
  shows "fold (\<lambda>k st. remove_conflict t (look (fst st) k) st) ks (pool, removed) = (pool, removed)"
  using assms by (induction ks) (auto simp: remove_conflict_def tx_ne_def)

lemma set_fold_delete: "set (fold AList.delete ks m) = {r \<in> set m. fst r \<notin> set ks}"
  by (induction ks arbitrary: m) (auto simp: AList.delete_eq)

lemma txids_distinct_same:
  assumes "txids_distinct p" and "e \<in> set (mapTx p)" and "e' \<in> set (mapTx p)"
    and "GetHash (GetTx e) = GetHash (GetTx e')"
  shows "e = e'"
proof -
  from assms(1) have "inj_on (\<lambda>e. GetHash (GetTx e)) (set (mapTx p))"
    by (simp add: txids_distinct_def distinct_map)
  with assms(2-4) show ?thesis by (auto dest: inj_onD)
qed

lemma shrinks_distinct: "shrinks p p' \<Longrightarrow> txids_distinct p \<Longrightarrow> txids_distinct p'"
  unfolding shrinks_def txids_distinct_def by (auto simp: distinct_map_filter)

lemma rows_after_delete:
  assumes rows: "\<forall>r \<in> set m. (\<exists>e \<in> set es. GetTx e = T r) \<and> K r"
    and own: "\<And>r. K r \<Longrightarrow> T r = GetTx ez \<Longrightarrow> fst r \<in> set ks"
    and uniq: "\<And>e. e \<in> set es \<Longrightarrow> GetHash (GetTx e) = h \<Longrightarrow> e = ez"
  shows "\<forall>r \<in> set (fold AList.delete ks m). (\<exists>e \<in> set (mapTx_erase h es). GetTx e = T r) \<and> K r"
proof
  fix r assume "r \<in> set (fold AList.delete ks m)"
  then have r: "r \<in> set m" and k: "fst r \<notin> set ks" by (simp_all add: set_fold_delete)
  from rows r obtain e where e: "e \<in> set es" "GetTx e = T r" and K: "K r" by blast
  have "GetHash (GetTx e) \<noteq> h"
  proof
    assume "GetHash (GetTx e) = h"
    with e(1) have "e = ez" by (rule uniq)
    with e(2) K have "fst r \<in> set ks" by (intro own) simp_all
    with k show False by simp
  qed
  with e have "e \<in> set (mapTx_erase h es)" by (simp add: mapTx_erase_def)
  with e(2) K show "(\<exists>e \<in> set (mapTx_erase h es). GetTx e = T r) \<and> K r" by blast
qed

lemma rows_sound_remove_entry:
  assumes sound: "rows_sound p" and dist: "txids_distinct p"
    and found: "mapTx_find (mapTx p) h = Some e0"
  shows "rows_sound (remove_entry h e0 p)"
proof -
  from found have e0: "e0 \<in> set (mapTx p)" and h: "GetHash (GetTx e0) = h"
    by (simp_all add: mapTx_find_Some_set)
  have uniq: "e = e0" if "e \<in> set (mapTx p)" "GetHash (GetTx e) = h" for e
    using dist that(1) e0 that(2) h by (intro txids_distinct_same [of p]) simp_all
  have 1: "\<forall>r \<in> set (fold AList.delete (map prevout (vin (GetTx e0))) (mapNextTx p)).
      (\<exists>e \<in> set (mapTx_erase h (mapTx p)). GetTx e = ptx (snd r))
      \<and> (ip_n (snd r) < length (vin (ptx (snd r)))
          \<and> prevout (vin (ptx (snd r)) ! ip_n (snd r)) = fst r)"
  proof (rule rows_after_delete [where ez = e0])
    show "\<forall>r \<in> set (mapNextTx p). (\<exists>e \<in> set (mapTx p). GetTx e = ptx (snd r))
        \<and> (ip_n (snd r) < length (vin (ptx (snd r)))
            \<and> prevout (vin (ptx (snd r)) ! ip_n (snd r)) = fst r)"
      using sound by (simp add: rows_sound_def)
  next
    fix r :: "COutPoint \<times> CInPoint"
    assume "ip_n (snd r) < length (vin (ptx (snd r)))
        \<and> prevout (vin (ptx (snd r)) ! ip_n (snd r)) = fst r"
      and "ptx (snd r) = GetTx e0"
    then show "fst r \<in> set (map prevout (vin (GetTx e0)))"
      by (metis length_map nth_map nth_mem)
  next
    fix e assume "e \<in> set (mapTx p)" "GetHash (GetTx e) = h"
    then show "e = e0" by (rule uniq)
  qed
  have 2: "\<forall>r \<in> set (fold AList.delete (sprout_nullifiers (GetTx e0)) (mapSproutNullifiers p)).
      (\<exists>e \<in> set (mapTx_erase h (mapTx p)). GetTx e = snd r) \<and> fst r \<in> set (sprout_nullifiers (snd r))"
    by (rule rows_after_delete [where ez = e0]) (use sound uniq in \<open>auto simp: rows_sound_def\<close>)
  have 3: "\<forall>r \<in> set (fold AList.delete (sapling_nullifiers (GetTx e0)) (mapSaplingNullifiers p)).
      (\<exists>e \<in> set (mapTx_erase h (mapTx p)). GetTx e = snd r) \<and> fst r \<in> set (sapling_nullifiers (snd r))"
    by (rule rows_after_delete [where ez = e0]) (use sound uniq in \<open>auto simp: rows_sound_def\<close>)
  have 4: "\<forall>r \<in> set (fold AList.delete (orchard_nullifiers (GetTx e0)) (mapOrchardNullifiers p)).
      (\<exists>e \<in> set (mapTx_erase h (mapTx p)). GetTx e = snd r) \<and> fst r \<in> set (orchard_nullifiers (snd r))"
    by (rule rows_after_delete [where ez = e0]) (use sound uniq in \<open>auto simp: rows_sound_def\<close>)
  from 1 2 3 4 show ?thesis
    unfolding rows_sound_def
    by (simp add: remove_entry_mapNextTx remove_entry_sprout remove_entry_sapling
        remove_entry_orchard)
qed

lemma pool_consistent_remove_entry:
  assumes "pool_consistent p" and "mapTx_find (mapTx p) h = Some e0"
  shows "pool_consistent (remove_entry h e0 p)"
proof -
  from assms have "pool_indexed (remove_entry h e0 p)"
    by (simp add: pool_consistent_def pool_indexed_remove_entry)
  moreover from assms have "rows_sound (remove_entry h e0 p)"
    by (simp add: pool_consistent_def rows_sound_remove_entry)
  moreover from assms(1) have "txids_distinct (remove_entry h e0 p)"
    using shrinks_distinct [OF shrinks_remove_entry] by (simp add: pool_consistent_def)
  ultimately show ?thesis by (simp add: pool_consistent_def)
qed

lemma remove_loop_consistent:
  "remove_loop r q p rm = (p', rm') \<Longrightarrow> pool_consistent p \<Longrightarrow> pool_consistent p'"
proof (induction r q p rm rule: remove_loop.induct)
  case (1 fRecursive pool removed)
  then show ?case by simp
next
  case (2 fRecursive hash txToRemove pool removed)
  show ?case
  proof (cases "mapTx_find (mapTx pool) hash")
    case None
    with "2.prems"(1) have "remove_loop fRecursive txToRemove pool removed = (p', rm')" by simp
    with None show ?thesis using "2.prems"(2) by (rule "2.IH"(1))
  next
    case (Some e)
    with "2.prems"(1) have run: "remove_loop fRecursive
        (txToRemove @ (if fRecursive then spenders_of (mapNextTx pool) hash (length (vout (GetTx e))) else []))
        (remove_entry hash e pool) (removed @ [GetTx e]) = (p', rm')" by simp
    from "2.prems"(2) Some have "pool_consistent (remove_entry hash e pool)"
      by (rule pool_consistent_remove_entry)
    with Some run show ?thesis by (rule "2.IH"(2))
  qed
qed

lemma spends_output_row:
  assumes "entry_indexed p e" and "spends_output e t"
  shows "GetHash (GetTx e) \<in> set (spenders_of (mapNextTx p) (GetHash t) (length (vout t)))"
proof -
  from assms(2) obtain txin where txin: "txin \<in> set (vin (GetTx e))"
    and oh: "op_hash (prevout txin) = GetHash t" and on: "op_n (prevout txin) < length (vout t)"
    by (auto simp: spends_output_def)
  from txin have "prevout txin \<in> set (map prevout (vin (GetTx e)))" by simp
  with assms(1) obtain k where "map_of (mapNextTx p) (prevout txin) = Some (CInPoint (GetTx e) k)"
    using indexed_spend_row by blast
  moreover from oh have "prevout txin = COutPoint (GetHash t) (op_n (prevout txin))"
    by (cases "prevout txin") simp
  ultimately have "map_of (mapNextTx p) (COutPoint (GetHash t) (op_n (prevout txin))) = Some (CInPoint (GetTx e) k)"
    by simp
  with on show ?thesis
    unfolding set_spenders_of by force
qed

lemma remove_loop_closed:
  "remove_loop r q p rm = (p', rm') \<Longrightarrow> r \<Longrightarrow> pool_indexed p \<Longrightarrow> txids_distinct p
     \<Longrightarrow> par \<in> set (mapTx p) \<Longrightarrow> par \<notin> set (mapTx p')
     \<Longrightarrow> e \<in> set (mapTx p) \<Longrightarrow> spends_output e (GetTx par) \<Longrightarrow> e \<notin> set (mapTx p')"
proof (induction r q p rm rule: remove_loop.induct)
  case (1 fRecursive pool removed)
  then show ?case by simp
next
  case (2 fRecursive hash txToRemove pool removed)
  show ?case
  proof (cases "mapTx_find (mapTx pool) hash")
    case None
    with "2.prems"(1) have "remove_loop fRecursive txToRemove pool removed = (p', rm')" by simp
    with None show ?thesis using "2.prems"(2-8) by (rule "2.IH"(1))
  next
    case (Some e0)
    let ?q = "txToRemove @ (if fRecursive then spenders_of (mapNextTx pool) hash (length (vout (GetTx e0))) else [])"
    let ?p1 = "remove_entry hash e0 pool"
    from "2.prems"(1) Some have run: "remove_loop fRecursive ?q ?p1 (removed @ [GetTx e0]) = (p', rm')"
      by simp
    from Some have e0: "e0 \<in> set (mapTx pool)" "GetHash (GetTx e0) = hash"
      by (simp_all add: mapTx_find_Some_set)
    from run have sh: "shrinks ?p1 p'" by (rule remove_loop_shrinks)
    show ?thesis
    proof (cases "GetHash (GetTx par) = hash")
      case True
      with "2.prems"(4,5) e0 have "par = e0" by (intro txids_distinct_same [of pool]) simp_all
      moreover from "2.prems"(3,7) have "entry_indexed pool e" by (simp add: pool_indexed_def)
      ultimately have "GetHash (GetTx e) \<in> set (spenders_of (mapNextTx pool) hash (length (vout (GetTx e0))))"
        using "2.prems"(8) e0(2) spends_output_row [of pool e "GetTx e0"] by simp
      with "2.prems"(2) have "GetHash (GetTx e) \<in> set ?q" by simp
      with run have "\<not> exists_tx p' (GetHash (GetTx e))" by (rule remove_loop_absent)
      then show ?thesis by (auto simp: exists_tx_iff)
    next
      case False
      with "2.prems"(5) have par1: "par \<in> set (mapTx ?p1)" by (simp add: mapTx_erase_def)
      show ?thesis
      proof (cases "GetHash (GetTx e) = hash")
        case True
        then have "e \<notin> set (mapTx ?p1)" by (simp add: mapTx_erase_def)
        with sh show ?thesis using shrinks_subset by blast
      next
        case False
        with "2.prems"(7) have e1: "e \<in> set (mapTx ?p1)" by (simp add: mapTx_erase_def)
        from "2.prems"(3) Some have i1: "pool_indexed ?p1" by (rule pool_indexed_remove_entry)
        from shrinks_remove_entry "2.prems"(4) have d1: "txids_distinct ?p1" by (rule shrinks_distinct)
        from Some run "2.prems"(2) i1 d1 par1 "2.prems"(6) e1 "2.prems"(8)
        show ?thesis by (rule "2.IH"(2))
      qed
    qed
  qed
qed

lemma set_erase_distinct:
  assumes "txids_distinct p" and "e0 \<in> set (mapTx p)"
  shows "set (mapTx_erase (GetHash (GetTx e0)) (mapTx p)) = set (mapTx p) - {e0}"
proof (intro set_eqI iffI)
  fix e
  assume "e \<in> set (mapTx_erase (GetHash (GetTx e0)) (mapTx p))"
  then show "e \<in> set (mapTx p) - {e0}" by (auto simp: mapTx_erase_def)
next
  fix e
  assume a: "e \<in> set (mapTx p) - {e0}"
  then have "e \<in> set (mapTx p)" "e \<noteq> e0" by simp_all
  with assms have "GetHash (GetTx e) \<noteq> GetHash (GetTx e0)"
    using txids_distinct_same by blast
  with a show "e \<in> set (mapTx_erase (GetHash (GetTx e0)) (mapTx p))"
    by (simp add: mapTx_erase_def)
qed

lemma remove_loop_removed:
  "remove_loop r q p rm = (p', rm') \<Longrightarrow> txids_distinct p
     \<Longrightarrow> \<exists>R. rm' = rm @ R \<and> set R = GetTx ` (set (mapTx p) - set (mapTx p'))"
proof (induction r q p rm rule: remove_loop.induct)
  case (1 fRecursive pool removed)
  then show ?case by simp
next
  case (2 fRecursive hash txToRemove pool removed)
  show ?case
  proof (cases "mapTx_find (mapTx pool) hash")
    case None
    with "2.prems"(1) have "remove_loop fRecursive txToRemove pool removed = (p', rm')" by simp
    with None show ?thesis using "2.prems"(2) by (rule "2.IH"(1))
  next
    case (Some e0)
    let ?q = "txToRemove @ (if fRecursive then spenders_of (mapNextTx pool) hash (length (vout (GetTx e0))) else [])"
    let ?p1 = "remove_entry hash e0 pool"
    from "2.prems"(1) Some have run: "remove_loop fRecursive ?q ?p1 (removed @ [GetTx e0]) = (p', rm')"
      by simp
    from Some have e0: "e0 \<in> set (mapTx pool)" "GetHash (GetTx e0) = hash"
      by (simp_all add: mapTx_find_Some_set)
    from shrinks_remove_entry "2.prems"(2) have d1: "txids_distinct ?p1" by (rule shrinks_distinct)
    from Some run d1 obtain R where R: "rm' = (removed @ [GetTx e0]) @ R"
      "set R = GetTx ` (set (mapTx ?p1) - set (mapTx p'))"
      using "2.IH"(2) by blast
    from run have "set (mapTx p') \<subseteq> set (mapTx ?p1)"
      using remove_loop_shrinks shrinks_subset by blast
    moreover from "2.prems"(2) e0(1) have "set (mapTx_erase (GetHash (GetTx e0)) (mapTx pool)) = set (mapTx pool) - {e0}"
      by (rule set_erase_distinct)
    with e0(2) have "set (mapTx ?p1) = set (mapTx pool) - {e0}" by simp
    ultimately have "set (mapTx pool) - set (mapTx p') = insert e0 (set (mapTx ?p1) - set (mapTx p'))"
      using e0(1) by blast
    then have "GetTx ` (set (mapTx pool) - set (mapTx p')) = insert (GetTx e0) (set R)"
      using R(2) by simp
    with R(1) have "rm' = removed @ (GetTx e0 # R)
        \<and> set (GetTx e0 # R) = GetTx ` (set (mapTx pool) - set (mapTx p'))"
      by simp
    then show ?thesis by blast
  qed
qed

lemma pool_consistent_tree [simp]:
  "pool_consistent (p\<lparr>weightedTxTree := X\<rparr>) = pool_consistent p"
  by (simp add: pool_consistent_def rows_sound_def txids_distinct_def)

lemma closed_removal_tree [simp]:
  "closed_removal p (p'\<lparr>weightedTxTree := X\<rparr>) = closed_removal p p'"
  by (simp add: closed_removal_def)

lemma remove_tx_consistent:
  assumes "pool_consistent p"
  shows "pool_consistent (fst (remove_tx c rm r p))"
proof -
  obtain p1 rm1 where run: "remove_loop r (initial_queue c r p) p rm = (p1, rm1)"
    and res: "remove_tx c rm r p =
       (p1\<lparr>weightedTxTree := fold (\<lambda>t. tree_remove (GetHash t)) rm1 (weightedTxTree p1)\<rparr>, rm1)"
    by (rule remove_tx_run)
  from run assms have "pool_consistent p1" by (rule remove_loop_consistent)
  then show ?thesis by (simp add: res)
qed

lemma remove_tx_removed:
  assumes "txids_distinct p"
  shows "\<exists>R. snd (remove_tx c rm r p) = rm @ R
     \<and> set R = GetTx ` (set (mapTx p) - set (mapTx (fst (remove_tx c rm r p))))"
proof -
  obtain p1 rm1 where run: "remove_loop r (initial_queue c r p) p rm = (p1, rm1)"
    and res: "remove_tx c rm r p =
       (p1\<lparr>weightedTxTree := fold (\<lambda>t. tree_remove (GetHash t)) rm1 (weightedTxTree p1)\<rparr>, rm1)"
    by (rule remove_tx_run)
  from run assms have "\<exists>R. rm1 = rm @ R \<and> set R = GetTx ` (set (mapTx p) - set (mapTx p1))"
    by (rule remove_loop_removed)
  then show ?thesis by (simp add: res)
qed

lemma remove_tx_closed:
  assumes "pool_indexed p" and "txids_distinct p"
  shows "closed_removal p (fst (remove_tx c rm True p))"
proof -
  obtain p1 rm1 where run: "remove_loop True (initial_queue c True p) p rm = (p1, rm1)"
    and res: "remove_tx c rm True p =
       (p1\<lparr>weightedTxTree := fold (\<lambda>t. tree_remove (GetHash t)) rm1 (weightedTxTree p1)\<rparr>, rm1)"
    by (rule remove_tx_run)
  have "closed_removal p p1"
    unfolding closed_removal_def
    using remove_loop_closed [OF run _ assms] by blast
  then show ?thesis by (simp add: res)
qed

lemma closed_removal_refl: "closed_removal p p"
  by (simp add: closed_removal_def)

lemma closed_removal_trans:
  assumes "closed_removal p q" and "closed_removal q r" and "shrinks p q" and "shrinks q r"
  shows "closed_removal p r"
  unfolding closed_removal_def
proof (intro ballI impI)
  fix par e
  assume par: "par \<in> set (mapTx p)" and e: "e \<in> set (mapTx p)"
    and h: "par \<notin> set (mapTx r) \<and> spends_output e (GetTx par)"
  show "e \<notin> set (mapTx r)"
  proof
    assume er: "e \<in> set (mapTx r)"
    with assms(4) have eq: "e \<in> set (mapTx q)" using shrinks_subset by blast
    with assms(1) par e h have "par \<in> set (mapTx q)" unfolding closed_removal_def by blast
    with assms(2) eq h have "e \<notin> set (mapTx r)" unfolding closed_removal_def by blast
    with er show False by simp
  qed
qed

lemma removal_refl: "removal st st"
  by (simp add: removal_def shrinks_refl closed_removal_refl)

lemma removal_trans:
  assumes "removal a b" and "removal b c"
  shows "removal a c"
proof -
  from assms have sh: "shrinks (fst a) (fst b)" "shrinks (fst b) (fst c)"
    and cl: "closed_removal (fst a) (fst b)" "closed_removal (fst b) (fst c)"
    by (simp_all add: removal_def)
  from assms obtain R1 R2 where R: "snd b = snd a @ R1"
    "set R1 = GetTx ` (set (mapTx (fst a)) - set (mapTx (fst b)))"
    "snd c = snd b @ R2" "set R2 = GetTx ` (set (mapTx (fst b)) - set (mapTx (fst c)))"
    unfolding removal_def by blast
  from sh have sub: "set (mapTx (fst b)) \<subseteq> set (mapTx (fst a))" "set (mapTx (fst c)) \<subseteq> set (mapTx (fst b))"
    by (simp_all add: shrinks_subset)
  then have "set (mapTx (fst a)) - set (mapTx (fst c))
      = (set (mapTx (fst a)) - set (mapTx (fst b))) \<union> (set (mapTx (fst b)) - set (mapTx (fst c)))"
    by auto
  with R have "snd c = snd a @ (R1 @ R2)
      \<and> set (R1 @ R2) = GetTx ` (set (mapTx (fst a)) - set (mapTx (fst c)))"
    by (simp add: image_Un)
  then have "\<exists>R. snd c = snd a @ R \<and> set R = GetTx ` (set (mapTx (fst a)) - set (mapTx (fst c)))"
    by blast
  with shrinks_trans [OF sh] closed_removal_trans [OF cl sh] show ?thesis
    by (simp add: removal_def)
qed

lemma remove_tx_removal:
  assumes "pool_consistent p"
  shows "removal (p, rm) (remove_tx c rm True p)"
  using assms remove_tx_shrinks [of p c rm True] remove_tx_closed [of p c rm]
    remove_tx_removed [of p c rm True]
  by (simp add: removal_def pool_consistent_def)

lemma remove_conflict_removal:
  assumes "pool_consistent (fst st)"
  shows "removal st (remove_conflict t it st) \<and> pool_consistent (fst (remove_conflict t it st))"
proof (cases "\<exists>c. it = Some c \<and> tx_ne c t")
  case True
  then obtain c where "remove_conflict t it st = remove_tx c (snd st) True (fst st)"
    by (auto simp: remove_conflict_def)
  with assms remove_tx_removal [of "fst st" "snd st" c] remove_tx_consistent [of "fst st" c "snd st" True]
  show ?thesis by simp
next
  case False
  then have "remove_conflict t it st = st"
    by (auto simp: remove_conflict_def split: option.splits)
  with assms show ?thesis by (simp add: removal_refl)
qed

lemma conflict_fold_removal:
  "pool_consistent (fst st) \<Longrightarrow>
     removal st (fold (\<lambda>k st. remove_conflict t (look (fst st) k) st) ks st)
     \<and> pool_consistent (fst (fold (\<lambda>k st. remove_conflict t (look (fst st) k) st) ks st))"
proof (induction ks arbitrary: st)
  case Nil
  then show ?case by (simp add: removal_refl)
next
  case (Cons k ks)
  let ?st1 = "remove_conflict t (look (fst st) k) st"
  from Cons.prems have 1: "removal st ?st1" and c1: "pool_consistent (fst ?st1)"
    using remove_conflict_removal by blast+
  from Cons.IH [OF c1] 1 show ?case
    using removal_trans by auto
qed

lemma shrinks_row:
  assumes "m' \<subseteq>\<^sub>m map_of m" and "m' k = Some v"
  shows "(k, v) \<in> set m"
proof -
  from assms have "map_of m k = Some v" by (metis domI map_le_def)
  then show ?thesis by (rule map_of_SomeD)
qed

lemma spenders_reach:
  assumes sound: "rows_sound pool0" and sh: "shrinks pool0 p" and h: "h \<in> reach (mapTx pool0) R"
    and par: "par \<in> set (mapTx pool0)" "GetHash (GetTx par) = h" and n: "n \<le> length (vout (GetTx par))"
  shows "set (spenders_of (mapNextTx p) h n) \<subseteq> reach (mapTx pool0) R"
proof
  fix x assume "x \<in> set (spenders_of (mapNextTx p) h n)"
  then obtain i ip where i: "i < n" and row: "map_of (mapNextTx p) (COutPoint h i) = Some ip"
    and x: "x = GetHash (ptx ip)"
    unfolding set_spenders_of by blast
  from sh have "map_of (mapNextTx p) \<subseteq>\<^sub>m map_of (mapNextTx pool0)" by (simp add: shrinks_def)
  then have "(COutPoint h i, ip) \<in> set (mapNextTx pool0)" using row by (rule shrinks_row)
  with sound obtain e where e: "e \<in> set (mapTx pool0)" "GetTx e = ptx ip"
    and k: "ip_n ip < length (vin (ptx ip))" and op: "prevout (vin (ptx ip) ! ip_n ip) = COutPoint h i"
    unfolding rows_sound_def by fastforce
  from k e have "vin (GetTx e) ! ip_n ip \<in> set (vin (GetTx e))" by simp
  moreover from op e have "op_hash (prevout (vin (GetTx e) ! ip_n ip)) = GetHash (GetTx par)"
    "op_n (prevout (vin (GetTx e) ! ip_n ip)) = i" by (simp_all add: par(2))
  moreover from i n have "i < length (vout (GetTx par))" by simp
  ultimately have "spends_output e (GetTx par)" unfolding spends_output_def by blast
  with h par e(1) have "GetHash (GetTx e) \<in> reach (mapTx pool0) R"
    by (intro reach.spend [where par = par and h = h])
  with x e show "x \<in> reach (mapTx pool0) R" by simp
qed

lemma remove_loop_reach:
  assumes sound: "rows_sound pool0"
  shows "remove_loop r q p rm = (p', rm') \<Longrightarrow> shrinks pool0 p
     \<Longrightarrow> set q \<subseteq> reach (mapTx pool0) R
     \<Longrightarrow> e \<in> set (mapTx p) \<Longrightarrow> e \<notin> set (mapTx p')
     \<Longrightarrow> GetHash (GetTx e) \<in> reach (mapTx pool0) R"
proof (induction r q p rm rule: remove_loop.induct)
  case (1 fRecursive pool removed)
  then show ?case by simp
next
  case (2 fRecursive hash txToRemove pool removed)
  show ?case
  proof (cases "mapTx_find (mapTx pool) hash")
    case None
    with "2.prems"(1) have run: "remove_loop fRecursive txToRemove pool removed = (p', rm')" by simp
    from "2.prems"(3) have q: "set txToRemove \<subseteq> reach (mapTx pool0) R" by simp
    from None run "2.prems"(2) q "2.prems"(4,5) show ?thesis by (rule "2.IH"(1))
  next
    case (Some e0)
    let ?q = "txToRemove @ (if fRecursive then spenders_of (mapNextTx pool) hash (length (vout (GetTx e0))) else [])"
    from "2.prems"(1) Some have run: "remove_loop fRecursive ?q (remove_entry hash e0 pool) (removed @ [GetTx e0]) = (p', rm')"
      by simp
    from "2.prems"(3) have hr: "hash \<in> reach (mapTx pool0) R" by simp
    from Some have e0: "e0 \<in> set (mapTx pool)" "GetHash (GetTx e0) = hash"
      by (simp_all add: mapTx_find_Some_set)
    from e0(1) "2.prems"(2) have e00: "e0 \<in> set (mapTx pool0)" using shrinks_subset by blast
    have sh1: "shrinks pool0 (remove_entry hash e0 pool)"
      using "2.prems"(2) shrinks_remove_entry by (rule shrinks_trans)
    have "set (spenders_of (mapNextTx pool) hash (length (vout (GetTx e0)))) \<subseteq> reach (mapTx pool0) R"
      using sound "2.prems"(2) hr e00 e0(2) by (rule spenders_reach) simp
    with "2.prems"(3) have q: "set ?q \<subseteq> reach (mapTx pool0) R" by auto
    show ?thesis
    proof (cases "e \<in> set (mapTx (remove_entry hash e0 pool))")
      case True
      from Some run sh1 q True "2.prems"(5) show ?thesis by (rule "2.IH"(2))
    next
      case False
      with "2.prems"(4) have "GetHash (GetTx e) = hash" by (simp add: mapTx_erase_def)
      with hr show ?thesis by simp
    qed
  qed
qed

lemma remove_tx_reach:
  assumes sound: "rows_sound pool0" and sh: "shrinks pool0 p"
    and q: "set (initial_queue c r p) \<subseteq> reach (mapTx pool0) R"
    and e: "e \<in> set (mapTx p)" "e \<notin> set (mapTx (fst (remove_tx c rm r p)))"
  shows "GetHash (GetTx e) \<in> reach (mapTx pool0) R"
proof -
  obtain p1 rm1 where run: "remove_loop r (initial_queue c r p) p rm = (p1, rm1)"
    and res: "remove_tx c rm r p =
       (p1\<lparr>weightedTxTree := fold (\<lambda>t. tree_remove (GetHash t)) rm1 (weightedTxTree p1)\<rparr>, rm1)"
    by (rule remove_tx_run)
  from e(2) have "e \<notin> set (mapTx p1)" by (simp add: res)
  with sound run sh q e(1) show ?thesis by (rule remove_loop_reach)
qed

lemma initial_queue_reach:
  assumes sound: "rows_sound pool0" and sh: "shrinks pool0 p"
    and par: "par \<in> set (mapTx pool0)" "GetTx par = c"
    and c: "GetHash c \<in> reach (mapTx pool0) R"
  shows "set (initial_queue c r p) \<subseteq> reach (mapTx pool0) R"
proof -
  from par(2) have "GetHash (GetTx par) = GetHash c" "length (vout c) \<le> length (vout (GetTx par))"
    by simp_all
  with sound sh c par(1)
  have "set (spenders_of (mapNextTx p) (GetHash c) (length (vout c))) \<subseteq> reach (mapTx pool0) R"
    by (intro spenders_reach)
  with c show ?thesis by (auto simp: initial_queue_def)
qed

lemma remove_tx_queue_absent:
  assumes "h \<in> set (initial_queue c r p)"
  shows "\<not> exists_tx (fst (remove_tx c rm r p)) h"
proof -
  obtain p1 rm1 where run: "remove_loop r (initial_queue c r p) p rm = (p1, rm1)"
    and res: "remove_tx c rm r p =
       (p1\<lparr>weightedTxTree := fold (\<lambda>t. tree_remove (GetHash t)) rm1 (weightedTxTree p1)\<rparr>, rm1)"
    by (rule remove_tx_run)
  from run assms have "\<not> exists_tx p1 h" by (rule remove_loop_absent)
  then show ?thesis by (simp add: res)
qed

lemma reach_gone:
  assumes d: "txids_distinct p0" and cl: "closed_removal p0 p'"
    and roots: "\<forall>h \<in> R. \<not> exists_tx p' h" and sub: "set (mapTx p') \<subseteq> set (mapTx p0)"
  shows "h \<in> reach (mapTx p0) R \<Longrightarrow> \<not> exists_tx p' h"
proof (induction rule: reach.induct)
  case (root h)
  with roots show ?case by simp
next
  case (spend h par e)
  from spend.hyps(2,3) spend.IH have par': "par \<notin> set (mapTx p')"
    by (auto simp: exists_tx_iff)
  with cl spend.hyps(2,4,5) have e': "e \<notin> set (mapTx p')"
    unfolding closed_removal_def by blast
  show ?case
  proof
    assume "exists_tx p' (GetHash (GetTx e))"
    then obtain e2 where e2: "e2 \<in> set (mapTx p')" "GetHash (GetTx e2) = GetHash (GetTx e)"
      by (auto simp: exists_tx_iff)
    from e2(1) sub have "e2 \<in> set (mapTx p0)" by blast
    with d have "e2 = e" using spend.hyps(4) e2(2) by (rule txids_distinct_same)
    with e2(1) e' show False by simp
  qed
qed

lemma exact_from_closed:
  assumes sh: "shrinks p0 p'" and d: "txids_distinct p0" and cl: "closed_removal p0 p'"
    and roots: "\<forall>h \<in> R. \<not> exists_tx p' h"
    and sub: "\<And>e. e \<in> set (mapTx p0) \<Longrightarrow> e \<notin> set (mapTx p') \<Longrightarrow> GetHash (GetTx e) \<in> reach (mapTx p0) R"
  shows "mapTx p' = filter (\<lambda>e. GetHash (GetTx e) \<notin> reach (mapTx p0) R) (mapTx p0)"
proof -
  from sh obtain P where P: "mapTx p' = filter P (mapTx p0)" unfolding shrinks_def by blast
  from sh have ss: "set (mapTx p') \<subseteq> set (mapTx p0)" by (rule shrinks_subset)
  have "P e \<longleftrightarrow> GetHash (GetTx e) \<notin> reach (mapTx p0) R" if e: "e \<in> set (mapTx p0)" for e
  proof
    assume "P e"
    with e P have e': "e \<in> set (mapTx p')" by simp
    show "GetHash (GetTx e) \<notin> reach (mapTx p0) R"
    proof
      assume "GetHash (GetTx e) \<in> reach (mapTx p0) R"
      with d cl roots ss have "\<not> exists_tx p' (GetHash (GetTx e))" by (rule reach_gone)
      with e' show False by (auto simp: exists_tx_iff)
    qed
  next
    assume n: "GetHash (GetTx e) \<notin> reach (mapTx p0) R"
    show "P e"
    proof (rule ccontr)
      assume "\<not> P e"
      with P have "e \<notin> set (mapTx p')" by simp
      with e have "GetHash (GetTx e) \<in> reach (mapTx p0) R" by (rule sub)
      with n show False by simp
    qed
  qed
  then have "filter P (mapTx p0) = filter (\<lambda>e. GetHash (GetTx e) \<notin> reach (mapTx p0) R) (mapTx p0)"
    by (intro filter_cong refl)
  with P show ?thesis by simp
qed

lemma remove_tx_exact_rec:
  assumes c: "pool_consistent p"
  shows "mapTx (fst (remove_tx t rm True p))
     = filter (\<lambda>e. GetHash (GetTx e) \<notin> reach (mapTx p) (set (initial_queue t True p))) (mapTx p)"
proof (rule exact_from_closed)
  show "shrinks p (fst (remove_tx t rm True p))" by (rule remove_tx_shrinks)
  from c show "txids_distinct p" by (simp add: pool_consistent_def)
  from c show "closed_removal p (fst (remove_tx t rm True p))"
    by (simp add: pool_consistent_def remove_tx_closed)
  show "\<forall>h \<in> set (initial_queue t True p). \<not> exists_tx (fst (remove_tx t rm True p)) h"
    using remove_tx_queue_absent by blast
next
  fix e
  assume e: "e \<in> set (mapTx p)" "e \<notin> set (mapTx (fst (remove_tx t rm True p)))"
  from c have "rows_sound p" by (simp add: pool_consistent_def)
  moreover have "shrinks p p" by (rule shrinks_refl)
  moreover have "set (initial_queue t True p) \<subseteq> reach (mapTx p) (set (initial_queue t True p))"
    by (auto intro: reach.root)
  ultimately show "GetHash (GetTx e) \<in> reach (mapTx p) (set (initial_queue t True p))"
    using e by (rule remove_tx_reach)
qed

lemma mapTx_erase_absent: "mapTx_find m h = None \<Longrightarrow> mapTx_erase h m = m"
  by (simp add: mapTx_find_None_iff mapTx_erase_def)

lemma remove_tx_exact_nonrec:
  "mapTx (fst (remove_tx t rm False p)) = mapTx_erase (GetHash t) (mapTx p)"
  by (simp add: remove_tx_def initial_queue_def mapTx_erase_absent split: option.split)

lemma remove_tx_removed_nonrec:
  "snd (remove_tx t rm False p)
     = rm @ (case mapTx_find (mapTx p) (GetHash t) of None \<Rightarrow> [] | Some e \<Rightarrow> [GetTx e])"
  by (simp add: remove_tx_def initial_queue_def split: option.split)

lemma reach_subset:
  assumes "R \<subseteq> reach m R'"
  shows "h \<in> reach m R \<Longrightarrow> h \<in> reach m R'"
proof (induction rule: reach.induct)
  case (root h)
  with assms show ?case by blast
next
  case (spend h par e)
  from spend.IH spend.hyps(2-5) show ?case by (rule reach.spend)
qed

lemma reach_eq:
  assumes "R \<subseteq> reach m R'" and "R' \<subseteq> reach m R"
  shows "reach m R = reach m R'"
  using assms reach_subset by blast

lemma spenders_children:
  assumes sound: "rows_sound p" and x: "x \<in> set (spenders_of (mapNextTx p) (GetHash t) (length (vout t)))"
  shows "\<exists>e \<in> set (mapTx p). GetHash (GetTx e) = x \<and> spends_output e t"
proof -
  from x obtain i ip where i: "i < length (vout t)"
    and row: "map_of (mapNextTx p) (COutPoint (GetHash t) i) = Some ip"
    and x: "x = GetHash (ptx ip)"
    unfolding set_spenders_of by blast
  from row have "(COutPoint (GetHash t) i, ip) \<in> set (mapNextTx p)" by (rule map_of_SomeD)
  with sound obtain e where e: "e \<in> set (mapTx p)" "GetTx e = ptx ip"
    and k: "ip_n ip < length (vin (ptx ip))"
    and op: "prevout (vin (ptx ip) ! ip_n ip) = COutPoint (GetHash t) i"
    unfolding rows_sound_def by fastforce
  from k e have "vin (GetTx e) ! ip_n ip \<in> set (vin (GetTx e))" by simp
  moreover from op e have "op_hash (prevout (vin (GetTx e) ! ip_n ip)) = GetHash t"
    "op_n (prevout (vin (GetTx e) ! ip_n ip)) = i" by simp_all
  ultimately have "spends_output e t" using i unfolding spends_output_def by blast
  moreover from e(2) x have "GetHash (GetTx e) = x" by simp
  ultimately show ?thesis using e(1) by blast
qed

lemma remove_roots_reach:
  assumes c: "pool_consistent p"
    and same: "\<forall>e \<in> set (mapTx p). GetHash (GetTx e) = GetHash t \<longrightarrow> GetTx e = t"
  shows "reach (mapTx p) (set (initial_queue t True p))
     = reach (mapTx p) (insert (GetHash t)
         ((\<lambda>e. GetHash (GetTx e)) ` {e \<in> set (mapTx p). spends_output e t}))"
    (is "reach ?m ?Q = reach ?m ?S")
proof (rule reach_eq)
  from c have sound: "rows_sound p" by (simp add: pool_consistent_def)
  show "?Q \<subseteq> reach ?m ?S"
  proof
    fix x assume "x \<in> ?Q"
    then consider "x = GetHash t"
      | "x \<in> set (spenders_of (mapNextTx p) (GetHash t) (length (vout t)))"
      by (auto simp: initial_queue_def split: if_splits)
    then show "x \<in> reach ?m ?S"
    proof cases
      case 1
      then show ?thesis by (simp add: reach.root)
    next
      case 2
      with sound have "\<exists>e \<in> set (mapTx p). GetHash (GetTx e) = x \<and> spends_output e t"
        by (rule spenders_children)
      then have "x \<in> ?S" by auto
      then show ?thesis by (rule reach.root)
    qed
  qed
next
  from c have idx: "pool_indexed p" by (simp add: pool_consistent_def)
  have h: "GetHash t \<in> reach ?m ?Q" by (rule reach.root) (simp add: initial_queue_def)
  show "?S \<subseteq> reach ?m ?Q"
  proof
    fix x assume "x \<in> ?S"
    then consider "x = GetHash t"
      | e where "e \<in> set (mapTx p)" "spends_output e t" "x = GetHash (GetTx e)"
      by auto
    then show "x \<in> reach ?m ?Q"
    proof cases
      case 1
      with h show ?thesis by simp
    next
      case 2
      show ?thesis
      proof (cases "mapTx_find (mapTx p) (GetHash t)")
        case None
        from idx 2(1) have "entry_indexed p e" by (simp add: pool_indexed_def)
        then have "x \<in> set (spenders_of (mapNextTx p) (GetHash t) (length (vout t)))"
          unfolding 2(3) using 2(2) by (rule spends_output_row)
        with None have "x \<in> ?Q" by (simp add: initial_queue_def mapTx_count_def)
        then show ?thesis by (rule reach.root)
      next
        case (Some par)
        then have par: "par \<in> set (mapTx p)" "GetHash (GetTx par) = GetHash t"
          by (simp_all add: mapTx_find_Some_set)
        with same have "GetTx par = t" by blast
        with 2(2) have "spends_output e (GetTx par)" by simp
        with h par 2(1) show ?thesis unfolding 2(3) by (rule reach.spend)
      qed
    qed
  qed
qed

lemma remove_tx_spenders_absent:
  assumes same: "\<forall>e \<in> set (mapTx pool). GetHash (GetTx e) = GetHash t \<longrightarrow> GetTx e = t"
    and x: "x \<in> set (spenders_of (mapNextTx pool) (GetHash t) (length (vout t)))"
  shows "\<not> exists_tx (fst (remove_tx t rm True pool)) x"
proof (cases "mapTx_find (mapTx pool) (GetHash t)")
  case None
  with x have "x \<in> set (initial_queue t True pool)"
    by (simp add: initial_queue_def mapTx_count_def)
  then show ?thesis by (rule remove_tx_queue_absent)
next
  case (Some e)
  then have "e \<in> set (mapTx pool)" "GetHash (GetTx e) = GetHash t"
    by (simp_all add: mapTx_find_Some_set)
  with same have e: "GetTx e = t" by blast
  obtain p1 rm1 where run: "remove_loop True (initial_queue t True pool) pool rm = (p1, rm1)"
    and res: "remove_tx t rm True pool =
       (p1\<lparr>weightedTxTree := fold (\<lambda>t. tree_remove (GetHash t)) rm1 (weightedTxTree p1)\<rparr>, rm1)"
    by (rule remove_tx_run)
  from Some have q: "initial_queue t True pool = [GetHash t]"
    by (simp add: initial_queue_def mapTx_count_def)
  from run have "remove_loop True (spenders_of (mapNextTx pool) (GetHash t) (length (vout t)))
      (remove_entry (GetHash t) e pool) (rm @ [t]) = (p1, rm1)"
    unfolding q by (simp add: Some e)
  then have "\<not> exists_tx p1 x" using x by (rule remove_loop_absent)
  then show ?thesis by (simp add: res)
qed

lemma remove_all_Cons: "remove_all (t # ts) p = remove_all ts (fst (remove_tx t [] True p))"
  by (simp add: remove_all_def)

lemma remove_all_closed:
  "pool_consistent p \<Longrightarrow> closed_removal p (remove_all ts p) \<and> pool_consistent (remove_all ts p)"
proof (induction ts arbitrary: p)
  case Nil
  then show ?case by (simp add: remove_all_def closed_removal_refl)
next
  case (Cons t ts)
  let ?p1 = "fst (remove_tx t [] True p)"
  from Cons.prems have c1: "pool_consistent ?p1" by (rule remove_tx_consistent)
  from Cons.prems have cl1: "closed_removal p ?p1"
    by (simp add: pool_consistent_def remove_tx_closed)
  from Cons.IH [OF c1] have cl2: "closed_removal ?p1 (remove_all ts ?p1)"
    and c2: "pool_consistent (remove_all ts ?p1)" by simp_all
  have "closed_removal p (remove_all ts ?p1)"
    using cl1 cl2 remove_tx_shrinks remove_all_shrinks by (rule closed_removal_trans)
  with c2 show ?case by (simp add: remove_all_Cons)
qed

lemma remove_all_reach:
  assumes sound: "rows_sound pool0"
  shows "shrinks pool0 p
     \<Longrightarrow> \<forall>t \<in> set ts. t \<in> GetTx ` set (mapTx pool0) \<and> GetHash t \<in> reach (mapTx pool0) R
     \<Longrightarrow> e \<in> set (mapTx p) \<Longrightarrow> e \<notin> set (mapTx (remove_all ts p))
     \<Longrightarrow> GetHash (GetTx e) \<in> reach (mapTx pool0) R"
proof (induction ts arbitrary: p)
  case Nil
  then show ?case by (simp add: remove_all_def)
next
  case (Cons t ts)
  let ?p1 = "fst (remove_tx t [] True p)"
  have sh1: "shrinks pool0 ?p1" using Cons.prems(1) remove_tx_shrinks by (rule shrinks_trans)
  from Cons.prems(2) have rest: "\<forall>t \<in> set ts. t \<in> GetTx ` set (mapTx pool0) \<and> GetHash t \<in> reach (mapTx pool0) R"
    by simp
  show ?case
  proof (cases "e \<in> set (mapTx ?p1)")
    case True
    from Cons.prems(4) have "e \<notin> set (mapTx (remove_all ts ?p1))" by (simp add: remove_all_Cons)
    with sh1 rest True show ?thesis by (rule Cons.IH)
  next
    case False
    from Cons.prems(2) obtain par where par: "par \<in> set (mapTx pool0)" "GetTx par = t"
      and t: "GetHash t \<in> reach (mapTx pool0) R" by auto
    from sound Cons.prems(1) par t have "set (initial_queue t True p) \<subseteq> reach (mapTx pool0) R"
      by (rule initial_queue_reach)
    with sound Cons.prems(1) show ?thesis using Cons.prems(3) False by (rule remove_tx_reach)
  qed
qed

lemma remove_all_exact:
  assumes c: "pool_consistent p" and ts: "set ts \<subseteq> GetTx ` set (mapTx p)"
  shows "mapTx (remove_all ts p)
     = filter (\<lambda>e. GetHash (GetTx e) \<notin> reach (mapTx p) (GetHash ` set ts)) (mapTx p)"
proof (rule exact_from_closed)
  show "shrinks p (remove_all ts p)" by (rule remove_all_shrinks)
  from c show "txids_distinct p" by (simp add: pool_consistent_def)
  from c show "closed_removal p (remove_all ts p)" using remove_all_closed by blast
  show "\<forall>h \<in> GetHash ` set ts. \<not> exists_tx (remove_all ts p) h"
    using remove_all_absent by blast
next
  fix e
  assume e: "e \<in> set (mapTx p)" "e \<notin> set (mapTx (remove_all ts p))"
  from c have "rows_sound p" by (simp add: pool_consistent_def)
  moreover have "shrinks p p" by (rule shrinks_refl)
  moreover from ts have "\<forall>t \<in> set ts. t \<in> GetTx ` set (mapTx p)
      \<and> GetHash t \<in> reach (mapTx p) (GetHash ` set ts)"
    by (auto intro: reach.root)
  ultimately show "GetHash (GetTx e) \<in> reach (mapTx p) (GetHash ` set ts)"
    using e by (rule remove_all_reach)
qed

lemma pool_xy_consistent: "pool_consistent pool_xy"
  unfolding pool_consistent_def by (intro conjI; code_simp)

lemma pool_y_consistent: "pool_consistent pool_y"
  unfolding pool_consistent_def by (intro conjI; code_simp)

section \<open>Idempotence and expiry\<close>

text \<open>
  C6, as the code has it. Let the pool's copy of the txid of \<open>origTx\<close>, if there is one, be
  \<open>origTx\<close> itself (the txid is a content hash). Then a second \<open>remove\<close> with the same
  arguments changes neither the pool state nor the out-list. A removal of a txid that is
  not in the pool changes no map and no counter when it is not recursive, or when no row
  of \<open>mapNextTx\<close> spends one of its outputs: only the tree nodes of the transactions
  already in the out-list are dropped, and with an empty out-list the state is the same.
  A recursive removal, of a txid in the pool or not, leaves no entry whose txid a row of
  \<open>mapNextTx\<close> records as the spender of an output of \<open>origTx\<close>; in a consistent pool it
  leaves exactly the entries that are not reachable, by spends of existing outputs, from
  the txid of \<open>origTx\<close> or from an entry that spends an output of \<open>origTx\<close>. A
  non-recursive removal leaves exactly the entries with another txid. When the txids of
  the pool are distinct, the out-list grows by the transactions of the entries that left.
\<close>

theorem remove_tx_idempotent:
  assumes "\<forall>e \<in> set (mapTx pool). GetHash (GetTx e) = GetHash origTx \<longrightarrow> GetTx e = origTx"
  shows "remove_tx origTx (snd (remove_tx origTx removed fRecursive pool)) fRecursive
           (fst (remove_tx origTx removed fRecursive pool))
         = remove_tx origTx removed fRecursive pool
    \<and> (\<not> exists_tx pool (GetHash origTx)
        \<and> (fRecursive \<longrightarrow>
             spenders_of (mapNextTx pool) (GetHash origTx) (length (vout origTx)) = [])
        \<longrightarrow> remove_tx origTx removed fRecursive pool =
              (pool\<lparr>weightedTxTree :=
                      fold (\<lambda>t. tree_remove (GetHash t)) removed (weightedTxTree pool)\<rparr>, removed)
            \<and> remove_tx origTx [] fRecursive pool = (pool, []))
    \<and> (\<forall>x \<in> set (spenders_of (mapNextTx pool) (GetHash origTx) (length (vout origTx))).
          \<not> exists_tx (fst (remove_tx origTx removed True pool)) x)
    \<and> (pool_consistent pool \<longrightarrow>
          mapTx (fst (remove_tx origTx removed True pool))
            = filter (\<lambda>e. GetHash (GetTx e) \<notin> reach (mapTx pool)
                  (insert (GetHash origTx)
                     ((\<lambda>e. GetHash (GetTx e)) ` {e \<in> set (mapTx pool). spends_output e origTx})))
                (mapTx pool))
    \<and> mapTx (fst (remove_tx origTx removed False pool))
          = filter (\<lambda>e. GetHash (GetTx e) \<noteq> GetHash origTx) (mapTx pool)
    \<and> (txids_distinct pool \<longrightarrow>
          (\<exists>R. snd (remove_tx origTx removed fRecursive pool) = removed @ R
             \<and> set R = GetTx ` (set (mapTx pool)
                          - set (mapTx (fst (remove_tx origTx removed fRecursive pool))))))"
proof -
  have "remove_tx origTx removed fRecursive pool =
      (fst (remove_tx origTx removed fRecursive pool), snd (remove_tx origTx removed fRecursive pool))"
    by simp
  with assms have "remove_tx origTx (snd (remove_tx origTx removed fRecursive pool)) fRecursive
           (fst (remove_tx origTx removed fRecursive pool))
         = (fst (remove_tx origTx removed fRecursive pool), snd (remove_tx origTx removed fRecursive pool))"
    by (rule remove_tx_twice)
  then have 1: "remove_tx origTx (snd (remove_tx origTx removed fRecursive pool)) fRecursive
           (fst (remove_tx origTx removed fRecursive pool))
         = remove_tx origTx removed fRecursive pool"
    by simp
  have 2: "\<not> exists_tx pool (GetHash origTx)
        \<and> (fRecursive \<longrightarrow>
             spenders_of (mapNextTx pool) (GetHash origTx) (length (vout origTx)) = [])
        \<longrightarrow> remove_tx origTx removed fRecursive pool =
              (pool\<lparr>weightedTxTree :=
                      fold (\<lambda>t. tree_remove (GetHash t)) removed (weightedTxTree pool)\<rparr>, removed)
            \<and> remove_tx origTx [] fRecursive pool = (pool, [])"
    by (simp add: remove_tx_nothing)
  have 3: "\<forall>x \<in> set (spenders_of (mapNextTx pool) (GetHash origTx) (length (vout origTx))).
          \<not> exists_tx (fst (remove_tx origTx removed True pool)) x"
    using assms remove_tx_spenders_absent by blast
  have 4: "pool_consistent pool \<longrightarrow>
          mapTx (fst (remove_tx origTx removed True pool))
            = filter (\<lambda>e. GetHash (GetTx e) \<notin> reach (mapTx pool)
                  (insert (GetHash origTx)
                     ((\<lambda>e. GetHash (GetTx e)) ` {e \<in> set (mapTx pool). spends_output e origTx})))
                (mapTx pool)"
  proof
    assume c: "pool_consistent pool"
    then show "mapTx (fst (remove_tx origTx removed True pool))
            = filter (\<lambda>e. GetHash (GetTx e) \<notin> reach (mapTx pool)
                  (insert (GetHash origTx)
                     ((\<lambda>e. GetHash (GetTx e)) ` {e \<in> set (mapTx pool). spends_output e origTx})))
                (mapTx pool)"
      unfolding remove_roots_reach [OF c assms, symmetric] by (rule remove_tx_exact_rec)
  qed
  have 5: "mapTx (fst (remove_tx origTx removed False pool))
          = filter (\<lambda>e. GetHash (GetTx e) \<noteq> GetHash origTx) (mapTx pool)"
    by (simp add: remove_tx_exact_nonrec mapTx_erase_def)
  have 6: "txids_distinct pool \<longrightarrow>
          (\<exists>R. snd (remove_tx origTx removed fRecursive pool) = removed @ R
             \<and> set R = GetTx ` (set (mapTx pool)
                          - set (mapTx (fst (remove_tx origTx removed fRecursive pool)))))"
    using remove_tx_removed by blast
  show ?thesis by (rule conjI [OF 1 conjI [OF 2 conjI [OF 3 conjI [OF 4 conjI [OF 5 6]]]]])
qed

text \<open>
  An instance: in \<open>pool_xy\<close> the recursive removal of \<open>tx_x\<close> removes \<open>tx_y\<close> with it and a
  second removal changes nothing; the non-recursive removal leaves \<open>tx_y\<close>; in \<open>pool_y\<close>,
  which does not hold \<open>tx_x\<close>, the recursive removal of \<open>tx_x\<close> removes \<open>tx_y\<close>.
\<close>

theorem remove_tx_idempotent_witness:
  "mapTx pool_xy = [entry_x, entry_y] \<and> GetTx entry_x = tx_x
   \<and> GetHash (GetTx entry_y) \<noteq> GetHash tx_x
   \<and> mapTx (fst (remove_tx tx_x [] True pool_xy)) = []
   \<and> snd (remove_tx tx_x [] True pool_xy) = [tx_x, tx_y]
   \<and> remove_tx tx_x [tx_x, tx_y] True (fst (remove_tx tx_x [] True pool_xy))
       = (fst (remove_tx tx_x [] True pool_xy), [tx_x, tx_y])
   \<and> \<not> exists_tx pool_xy (GetHash tx_x')
   \<and> remove_tx tx_x' [] False pool_xy = (pool_xy, [])
   \<and> mapTx (fst (remove_tx tx_x [] False pool_xy)) = [entry_y]
   \<and> pool_consistent pool_y \<and> mapTx pool_y = [entry_y] \<and> spends_output entry_y tx_x
   \<and> \<not> exists_tx pool_y (GetHash tx_x)
   \<and> mapTx (fst (remove_tx tx_x [] True pool_y)) = []
   \<and> set (snd (remove_tx tx_x [] True pool_y)) = {tx_y}
   \<and> snd (remove_tx tx_x [] True pool_y) = [tx_y]"
proof -
  have ev: "mapTx (fst (remove_tx tx_x [] True pool_y)) = []"
    "snd (remove_tx tx_x [] True pool_y) = [tx_y]"
    "mapTx (fst (remove_tx tx_x [] False pool_xy)) = [entry_y]"
    by code_simp+
  have m: "mapTx pool_xy = [entry_x, entry_y]" by code_simp
  have my: "mapTx pool_y = [entry_y]" by code_simp
  have same: "\<forall>e \<in> set (mapTx pool_xy). GetHash (GetTx e) = GetHash tx_x \<longrightarrow> GetTx e = tx_x"
    unfolding m by (simp add: entry_x_def entry_y_def mk_entry_def tx_x_def tx_y_def mk_tx_def)
  have same': "\<forall>e \<in> set (mapTx pool_xy). GetHash (GetTx e) = GetHash tx_x' \<longrightarrow> GetTx e = tx_x'"
    unfolding m by (simp add: entry_x_def entry_y_def mk_entry_def tx_x_def tx_y_def tx_x'_def mk_tx_def)
  have samey: "\<forall>e \<in> set (mapTx pool_y). GetHash (GetTx e) = GetHash tx_x \<longrightarrow> GetTx e = tx_x"
    unfolding my by (simp add: entry_y_def mk_entry_def tx_x_def tx_y_def mk_tx_def)
  have r: "mapTx (fst (remove_tx tx_x [] True pool_xy)) = []"
    "snd (remove_tx tx_x [] True pool_xy) = [tx_x, tx_y]"
    by code_simp+
  have a: "\<not> exists_tx pool_xy (GetHash tx_x')" by code_simp
  have ay: "\<not> exists_tx pool_y (GetHash tx_x)" by code_simp
  have "remove_tx tx_x [] True pool_xy = (fst (remove_tx tx_x [] True pool_xy), [tx_x, tx_y])"
    using r(2) by (metis prod.collapse)
  with remove_tx_idempotent [OF same, where removed = "[]" and fRecursive = True] r
  have 1: "remove_tx tx_x [tx_x, tx_y] True (fst (remove_tx tx_x [] True pool_xy))
       = (fst (remove_tx tx_x [] True pool_xy), [tx_x, tx_y])"
    by simp
  from remove_tx_idempotent [OF same', where removed = "[]" and fRecursive = False] a
  have 2: "remove_tx tx_x' [] False pool_xy = (pool_xy, [])"
    by simp
  have e: "GetTx entry_x = tx_x" "GetHash (GetTx entry_y) \<noteq> GetHash tx_x"
    "GetHash (GetTx entry_x) = GetHash tx_x" "GetTx entry_y = tx_y"
    by (simp_all add: entry_x_def entry_y_def mk_entry_def tx_x_def tx_y_def mk_tx_def)
  have hs: "GetHash tx_x = 10" "GetHash tx_y = 11" by (simp_all add: tx_x_def tx_y_def mk_tx_def)
  note n5 = remove_tx_idempotent [OF same, where removed = "[]" and fRecursive = False,
      THEN conjunct2, THEN conjunct2, THEN conjunct2, THEN conjunct2, THEN conjunct1]
  from n5 have 3: "mapTx (fst (remove_tx tx_x [] False pool_xy)) = [entry_y]"
    by (simp add: m e hs)
  have s: "spends_output entry_y tx_x"
    by (simp add: spends_output_def entry_y_def mk_entry_def tx_x_def tx_y_def mk_tx_def)
  have ry: "GetHash (GetTx entry_y) \<in> reach (mapTx pool_y)
      (insert (GetHash tx_x)
         ((\<lambda>e. GetHash (GetTx e)) ` {e \<in> set (mapTx pool_y). spends_output e tx_x}))"
    by (rule reach.root) (simp add: my s)
  note n4 = remove_tx_idempotent [OF samey, where removed = "[]" and fRecursive = True,
      THEN conjunct2, THEN conjunct2, THEN conjunct2, THEN conjunct1, rule_format, OF pool_y_consistent]
  have 4: "mapTx (fst (remove_tx tx_x [] True pool_y)) = []"
    unfolding n4 using ry by (simp add: my)
  have dy: "txids_distinct pool_y" using pool_y_consistent by (simp add: pool_consistent_def)
  note n6 = remove_tx_idempotent [OF samey, where removed = "[]" and fRecursive = True,
      THEN conjunct2, THEN conjunct2, THEN conjunct2, THEN conjunct2, THEN conjunct2, rule_format, OF dy]
  from n6 have 5: "set (snd (remove_tx tx_x [] True pool_y)) = {tx_y}"
    by (auto simp: my 4 e)
  from m e(1,2) r 1 a 2 3 pool_y_consistent my s ay 4 5 ev(2) show ?thesis by blast
qed

text \<open>
  The claim's last clause fails for a recursive removal: \<open>tx_x\<close> is not in \<open>pool_y\<close>, and
  removing it recursively removes \<open>tx_y\<close>, which spends its output.
\<close>

theorem remove_tx_absent_counterexample:
  "\<not> exists_tx pool_y (GetHash tx_x) \<and> remove_tx tx_x [] True pool_y \<noteq> (pool_y, [])"
proof -
  have a: "\<not> exists_tx pool_y (GetHash tx_x)" by code_simp
  have "mapTx (fst (remove_tx tx_x [] True pool_y)) = []" by code_simp
  moreover have "mapTx pool_y \<noteq> []" by code_simp
  ultimately have "fst (remove_tx tx_x [] True pool_y) \<noteq> pool_y" by auto
  then have "remove_tx tx_x [] True pool_y \<noteq> (pool_y, [])" by auto
  with a show ?thesis by blast
qed

text \<open>
  C9, as the code has it. \<open>removeExpired\<close> returns the txids of the pool's expired entries,
  in the order in which the pool is iterated; every one of them was in the pool and is
  removed, so no expired entry is left; the entries that are left are entries of the
  pool, unchanged and in order. The removals are recursive: in a consistent pool the
  entries that leave are exactly the expired entries and the entries reachable from them
  by spends of existing outputs, and only the expired ones are in the returned vector.
\<close>

theorem removeExpired_correct:
  assumes "removeExpired IsExpiredTx nBlockHeight pool = (ids, pool')"
  shows "ids = map (\<lambda>e. GetHash (GetTx e)) (filter (\<lambda>e. IsExpiredTx (GetTx e) nBlockHeight) (mapTx pool))
    \<and> (\<forall>e \<in> set (mapTx pool). IsExpiredTx (GetTx e) nBlockHeight \<longrightarrow> \<not> exists_tx pool' (GetHash (GetTx e)))
    \<and> (\<forall>e \<in> set (mapTx pool'). \<not> IsExpiredTx (GetTx e) nBlockHeight)
    \<and> (\<forall>i \<in> set ids. exists_tx pool i \<and> \<not> exists_tx pool' i)
    \<and> (\<exists>P. mapTx pool' = filter P (mapTx pool))
    \<and> (pool_consistent pool \<longrightarrow>
          mapTx pool' = filter (\<lambda>e. GetHash (GetTx e) \<notin> reach (mapTx pool) (set ids)) (mapTx pool))"
proof -
  let ?ts = "map GetTx (filter (\<lambda>it. IsExpiredTx (GetTx it) nBlockHeight) (mapTx pool))"
  from assms have ids: "ids = map GetHash ?ts" and pool': "pool' = remove_all ?ts pool"
    by (simp_all add: removeExpired_def removeExpired_fold)
  have sh: "shrinks pool pool'" unfolding pool' by (rule remove_all_shrinks)
  have gone: "\<not> exists_tx pool' (GetHash (GetTx e))"
    if "e \<in> set (mapTx pool)" "IsExpiredTx (GetTx e) nBlockHeight" for e
  proof -
    from that have "GetTx e \<in> set ?ts" by simp
    then show ?thesis unfolding pool' by (rule remove_all_absent)
  qed
  have surv: "\<not> IsExpiredTx (GetTx e) nBlockHeight" if "e \<in> set (mapTx pool')" for e
  proof
    assume "IsExpiredTx (GetTx e) nBlockHeight"
    moreover from that sh have "e \<in> set (mapTx pool)" using shrinks_subset by blast
    ultimately have "\<not> exists_tx pool' (GetHash (GetTx e))" using gone by blast
    with that show False by (auto simp: exists_tx_iff)
  qed
  have 1: "ids = map (\<lambda>e. GetHash (GetTx e)) (filter (\<lambda>e. IsExpiredTx (GetTx e) nBlockHeight) (mapTx pool))"
    by (simp add: ids comp_def)
  from gone have 2: "\<forall>e \<in> set (mapTx pool). IsExpiredTx (GetTx e) nBlockHeight \<longrightarrow> \<not> exists_tx pool' (GetHash (GetTx e))"
    by blast
  from surv have 3: "\<forall>e \<in> set (mapTx pool'). \<not> IsExpiredTx (GetTx e) nBlockHeight" by blast
  have 4: "\<forall>i \<in> set ids. exists_tx pool i \<and> \<not> exists_tx pool' i"
    using gone by (auto simp: ids exists_tx_iff)
  from sh have 5: "\<exists>P. mapTx pool' = filter P (mapTx pool)" by (simp add: shrinks_def)
  have 6: "pool_consistent pool \<longrightarrow>
          mapTx pool' = filter (\<lambda>e. GetHash (GetTx e) \<notin> reach (mapTx pool) (set ids)) (mapTx pool)"
  proof
    assume c: "pool_consistent pool"
    have "set ?ts \<subseteq> GetTx ` set (mapTx pool)" by auto
    with c have "mapTx (remove_all ?ts pool)
        = filter (\<lambda>e. GetHash (GetTx e) \<notin> reach (mapTx pool) (GetHash ` set ?ts)) (mapTx pool)"
      by (rule remove_all_exact)
    moreover have "GetHash ` set ?ts = set ids" by (simp add: ids image_image)
    ultimately show "mapTx pool' = filter (\<lambda>e. GetHash (GetTx e) \<notin> reach (mapTx pool) (set ids)) (mapTx pool)"
      unfolding pool' by simp
  qed
  show ?thesis by (rule conjI [OF 1 conjI [OF 2 conjI [OF 3 conjI [OF 4 conjI [OF 5 6]]]]])
qed

text \<open>
  An instance: at height 7 only \<open>tx_x\<close> is expired in \<open>pool_xy\<close>; the vector is its txid and
  the pool is left empty.
\<close>

theorem removeExpired_correct_witness:
  "removeExpired ex_expired 7 pool_xy
     = (fst (removeExpired ex_expired 7 pool_xy), snd (removeExpired ex_expired 7 pool_xy))
   \<and> fst (removeExpired ex_expired 7 pool_xy) = [10]
   \<and> entry_x \<in> set (mapTx pool_xy) \<and> ex_expired (GetTx entry_x) 7
   \<and> \<not> exists_tx (snd (removeExpired ex_expired 7 pool_xy)) (GetHash (GetTx entry_x))
   \<and> exists_tx pool_xy 10 \<and> \<not> exists_tx (snd (removeExpired ex_expired 7 pool_xy)) 10
   \<and> pool_consistent pool_xy \<and> spends_output entry_y (GetTx entry_x)
   \<and> mapTx (snd (removeExpired ex_expired 7 pool_xy)) = []"
proof -
  have ev: "fst (removeExpired ex_expired 7 pool_xy) = [10]"
    "mapTx (snd (removeExpired ex_expired 7 pool_xy)) = []"
    by code_simp+
  have m: "mapTx pool_xy = [entry_x, entry_y]" by code_simp
  have e: "ex_expired (GetTx entry_x) 7" "\<not> ex_expired (GetTx entry_y) 7"
    "GetHash (GetTx entry_x) = 10"
    by (simp_all add: ex_expired_def entry_x_def entry_y_def mk_entry_def tx_x_def tx_y_def mk_tx_def)
  have s: "spends_output entry_y (GetTx entry_x)"
    by (simp add: spends_output_def entry_x_def entry_y_def mk_entry_def tx_x_def tx_y_def mk_tx_def)
  have p: "removeExpired ex_expired 7 pool_xy
     = (fst (removeExpired ex_expired 7 pool_xy), snd (removeExpired ex_expired 7 pool_xy))"
    by simp
  note c = removeExpired_correct [OF p]
  from c have 1: "fst (removeExpired ex_expired 7 pool_xy) = [10]"
    by (simp add: m e)
  from c 1 have 2: "exists_tx pool_xy 10 \<and> \<not> exists_tx (snd (removeExpired ex_expired 7 pool_xy)) 10"
    by simp
  have rx: "GetHash (GetTx entry_x) \<in> reach (mapTx pool_xy) {10}"
    by (rule reach.root) (simp add: e)
  then have ry: "GetHash (GetTx entry_y) \<in> reach (mapTx pool_xy) {10}"
    by (rule reach.spend [where par = entry_x]) (simp_all add: m s)
  from c pool_xy_consistent have "mapTx (snd (removeExpired ex_expired 7 pool_xy))
      = filter (\<lambda>e. GetHash (GetTx e) \<notin> reach (mapTx pool_xy) {10}) (mapTx pool_xy)"
    unfolding 1 by simp
  with rx ry have 3: "mapTx (snd (removeExpired ex_expired 7 pool_xy)) = []"
    by (simp add: m)
  from p 1 2 e m pool_xy_consistent s 3 ev show ?thesis by simp
qed

text \<open>
  The returned vector does not hold the txids of all removed transactions: \<open>tx_y\<close> is not
  expired at height 7, it is removed with \<open>tx_x\<close>, whose output it spends, and its txid is
  not returned.
\<close>

theorem removeExpired_counterexample:
  "entry_y \<in> set (mapTx pool_xy) \<and> \<not> ex_expired (GetTx entry_y) 7
   \<and> \<not> exists_tx (snd (removeExpired ex_expired 7 pool_xy)) (GetHash (GetTx entry_y))
   \<and> GetHash (GetTx entry_y) \<notin> set (fst (removeExpired ex_expired 7 pool_xy))"
proof -
  have m: "mapTx pool_xy = [entry_x, entry_y]" by code_simp
  have e: "\<not> ex_expired (GetTx entry_y) 7" "GetHash (GetTx entry_y) = 11"
    by (simp_all add: ex_expired_def entry_y_def mk_entry_def tx_y_def mk_tx_def)
  have r: "mapTx (snd (removeExpired ex_expired 7 pool_xy)) = []" by code_simp
  have i: "fst (removeExpired ex_expired 7 pool_xy) = [10]" by code_simp
  from r have "\<not> exists_tx (snd (removeExpired ex_expired 7 pool_xy)) (GetHash (GetTx entry_y))"
    by (simp add: exists_tx_iff)
  with m e i show ?thesis by simp
qed

section \<open>Conflict removal\<close>

lemma conflict_phase_reach:
  fixes look :: "CTxMemPool \<Rightarrow> 'k \<Rightarrow> CTransaction option"
  assumes sound: "rows_sound pool0"
    and S: "\<And>p k c. shrinks pool0 p \<Longrightarrow> k \<in> K \<Longrightarrow> look p k = Some c \<Longrightarrow> tx_ne c t
               \<Longrightarrow> c \<in> GetTx ` set (mapTx pool0) \<and> GetHash c \<in> reach (mapTx pool0) R"
  shows "set ks \<subseteq> K \<Longrightarrow> shrinks pool0 (fst st) \<Longrightarrow> e \<in> set (mapTx (fst st))
     \<Longrightarrow> e \<notin> set (mapTx (fst (fold (\<lambda>k st. remove_conflict t (look (fst st) k) st) ks st)))
     \<Longrightarrow> GetHash (GetTx e) \<in> reach (mapTx pool0) R"
proof (induction ks arbitrary: st)
  case Nil
  then show ?case by simp
next
  case (Cons k ks)
  let ?st1 = "remove_conflict t (look (fst st) k) st"
  have sh1: "shrinks pool0 (fst ?st1)"
    using Cons.prems(2) shrinks_remove_conflict by (rule shrinks_trans)
  from Cons.prems(1) have ks: "set ks \<subseteq> K" and k: "k \<in> K" by simp_all
  show ?case
  proof (cases "e \<in> set (mapTx (fst ?st1))")
    case True
    from Cons.prems(4) have "e \<notin> set (mapTx (fst (fold (\<lambda>k st. remove_conflict t (look (fst st) k) st) ks ?st1)))"
      by simp
    with ks sh1 True show ?thesis by (rule Cons.IH)
  next
    case False
    with Cons.prems(3) obtain c where l: "look (fst st) k = Some c" and ne: "tx_ne c t"
      and st1: "?st1 = remove_tx c (snd st) True (fst st)"
      by (auto simp: remove_conflict_def split: option.splits if_splits)
    from Cons.prems(2) k l ne have "c \<in> GetTx ` set (mapTx pool0) \<and> GetHash c \<in> reach (mapTx pool0) R"
      by (rule S)
    then obtain par where par: "par \<in> set (mapTx pool0)" "GetTx par = c"
      and c: "GetHash c \<in> reach (mapTx pool0) R" by auto
    from sound Cons.prems(2) par c
    have "set (initial_queue c True (fst st)) \<subseteq> reach (mapTx pool0) R"
      by (rule initial_queue_reach)
    with sound Cons.prems(2) show ?thesis
      using Cons.prems(3) False unfolding st1 by (rule remove_tx_reach)
  qed
qed

lemma conflict_root_reach:
  assumes "e \<in> set m" and "overlaps t (GetTx e)" and "tx_ne (GetTx e) t"
  shows "GetTx e \<in> GetTx ` set m \<and> GetHash (GetTx e) \<in> reach m (conflict_roots t m)"
proof -
  from assms have "GetHash (GetTx e) \<in> conflict_roots t m"
    by (simp add: conflict_roots_def conflicts_with_def tx_ne_def)
  then have "GetHash (GetTx e) \<in> reach m (conflict_roots t m)" by (rule reach.root)
  with assms(1) show ?thesis by simp
qed

lemma spend_conflict_root:
  assumes sound: "rows_sound pool" and sh: "shrinks pool p" and k: "txin \<in> set (vin t)"
    and l: "map_option ptx (map_of (mapNextTx p) (prevout txin)) = Some c" and ne: "tx_ne c t"
  shows "c \<in> GetTx ` set (mapTx pool)
     \<and> GetHash c \<in> reach (mapTx pool) (conflict_roots t (mapTx pool))"
proof -
  from l obtain ip where row: "map_of (mapNextTx p) (prevout txin) = Some ip" and c: "ptx ip = c"
    by auto
  from sh have "map_of (mapNextTx p) \<subseteq>\<^sub>m map_of (mapNextTx pool)" by (simp add: shrinks_def)
  then have "(prevout txin, ip) \<in> set (mapNextTx pool)" using row by (rule shrinks_row)
  with sound c obtain e where e: "e \<in> set (mapTx pool)" "GetTx e = c"
    and n: "ip_n ip < length (vin c)" "prevout (vin c ! ip_n ip) = prevout txin"
    unfolding rows_sound_def by fastforce
  from n have "prevout txin \<in> set (map prevout (vin c))"
    by (metis length_map nth_map nth_mem)
  with k have "overlaps t c" by (auto simp: overlaps_def)
  with e ne show ?thesis using conflict_root_reach [of e "mapTx pool" t] by simp
qed

lemma sprout_conflict_root:
  assumes sound: "rows_sound pool" and sh: "shrinks pool p" and k: "nf \<in> set (sprout_nullifiers t)"
    and l: "map_of (mapSproutNullifiers p) nf = Some c" and ne: "tx_ne c t"
  shows "c \<in> GetTx ` set (mapTx pool)
     \<and> GetHash c \<in> reach (mapTx pool) (conflict_roots t (mapTx pool))"
proof -
  from sh have "map_of (mapSproutNullifiers p) \<subseteq>\<^sub>m map_of (mapSproutNullifiers pool)"
    by (simp add: shrinks_def)
  then have "(nf, c) \<in> set (mapSproutNullifiers pool)" using l by (rule shrinks_row)
  with sound obtain e where e: "e \<in> set (mapTx pool)" "GetTx e = c"
    and n: "nf \<in> set (sprout_nullifiers c)"
    unfolding rows_sound_def by fastforce
  from n k have "overlaps t c" by (auto simp: overlaps_def)
  with e ne show ?thesis using conflict_root_reach [of e "mapTx pool" t] by simp
qed

lemma sapling_conflict_root:
  assumes sound: "rows_sound pool" and sh: "shrinks pool p" and k: "nf \<in> set (sapling_nullifiers t)"
    and l: "map_of (mapSaplingNullifiers p) nf = Some c" and ne: "tx_ne c t"
  shows "c \<in> GetTx ` set (mapTx pool)
     \<and> GetHash c \<in> reach (mapTx pool) (conflict_roots t (mapTx pool))"
proof -
  from sh have "map_of (mapSaplingNullifiers p) \<subseteq>\<^sub>m map_of (mapSaplingNullifiers pool)"
    by (simp add: shrinks_def)
  then have "(nf, c) \<in> set (mapSaplingNullifiers pool)" using l by (rule shrinks_row)
  with sound obtain e where e: "e \<in> set (mapTx pool)" "GetTx e = c"
    and n: "nf \<in> set (sapling_nullifiers c)"
    unfolding rows_sound_def by fastforce
  from n k have "overlaps t c" by (auto simp: overlaps_def)
  with e ne show ?thesis using conflict_root_reach [of e "mapTx pool" t] by simp
qed

lemma orchard_conflict_root:
  assumes sound: "rows_sound pool" and sh: "shrinks pool p" and k: "nf \<in> set (orchard_nullifiers t)"
    and l: "map_of (mapOrchardNullifiers p) nf = Some c" and ne: "tx_ne c t"
  shows "c \<in> GetTx ` set (mapTx pool)
     \<and> GetHash c \<in> reach (mapTx pool) (conflict_roots t (mapTx pool))"
proof -
  from sh have "map_of (mapOrchardNullifiers p) \<subseteq>\<^sub>m map_of (mapOrchardNullifiers pool)"
    by (simp add: shrinks_def)
  then have "(nf, c) \<in> set (mapOrchardNullifiers pool)" using l by (rule shrinks_row)
  with sound obtain e where e: "e \<in> set (mapTx pool)" "GetTx e = c"
    and n: "nf \<in> set (orchard_nullifiers c)"
    unfolding rows_sound_def by fastforce
  from n k have "overlaps t c" by (auto simp: overlaps_def)
  with e ne show ?thesis using conflict_root_reach [of e "mapTx pool" t] by simp
qed

lemma removeConflicts_phases:
  "removeConflicts t removed pool =
     fold (\<lambda>k st. remove_conflict t (map_of (mapOrchardNullifiers (fst st)) k) st) (orchard_nullifiers t)
       (fold (\<lambda>k st. remove_conflict t (map_of (mapSaplingNullifiers (fst st)) k) st) (sapling_nullifiers t)
          (fold (\<lambda>k st. remove_conflict t (map_of (mapSproutNullifiers (fst st)) k) st) (sprout_nullifiers t)
             (fold (\<lambda>k st. remove_conflict t (map_option ptx (map_of (mapNextTx (fst st)) (prevout k))) st)
                (vin t) (pool, removed))))"
  unfolding removeConflicts_def Let_def by (rule refl)

lemma removeConflicts_facts:
  assumes con: "pool_consistent pool"
  shows "(\<forall>e \<in> set (mapTx (fst (removeConflicts t removed pool))). \<not> conflicts_with t e)
    \<and> (\<forall>e \<in> set (mapTx pool). e \<notin> set (mapTx (fst (removeConflicts t removed pool))) \<longrightarrow>
          GetHash (GetTx e) \<in> reach (mapTx pool) (conflict_roots t (mapTx pool)))
    \<and> removal (pool, removed) (removeConflicts t removed pool)
    \<and> pool_consistent (fst (removeConflicts t removed pool))
    \<and> ((\<exists>e \<in> set (mapTx pool). GetTx e = t) \<longrightarrow> removeConflicts t removed pool = (pool, removed))"
proof -
  from con have idx: "pool_indexed pool" and sound: "rows_sound pool"
    by (simp_all add: pool_consistent_def)
  let ?l1 = "\<lambda>p txin. map_option ptx (map_of (mapNextTx p) (prevout txin))"
  let ?l2 = "\<lambda>p nf. map_of (mapSproutNullifiers p) nf"
  let ?l3 = "\<lambda>p nf. map_of (mapSaplingNullifiers p) nf"
  let ?l4 = "\<lambda>p nf. map_of (mapOrchardNullifiers p) nf"
  let ?k1 = "\<lambda>u. {txin. prevout txin \<in> set (map prevout (vin u))}"
  let ?k2 = "\<lambda>u. set (sprout_nullifiers u)"
  let ?k3 = "\<lambda>u. set (sapling_nullifiers u)"
  let ?k4 = "\<lambda>u. set (orchard_nullifiers u)"
  let ?s0 = "(pool, removed)"
  let ?s1 = "fold (\<lambda>k st. remove_conflict t (?l1 (fst st) k) st) (vin t) ?s0"
  let ?s2 = "fold (\<lambda>k st. remove_conflict t (?l2 (fst st) k) st) (sprout_nullifiers t) ?s1"
  let ?s3 = "fold (\<lambda>k st. remove_conflict t (?l3 (fst st) k) st) (sapling_nullifiers t) ?s2"
  let ?s4 = "fold (\<lambda>k st. remove_conflict t (?l4 (fst st) k) st) (orchard_nullifiers t) ?s3"
  have res: "removeConflicts t removed pool = ?s4"
    by (rule removeConflicts_phases)
  have H1: "?l1 p k = Some (GetTx e)" if "entry_indexed p e" "k \<in> ?k1 (GetTx e)" for p e k
    using indexed_spend_row [OF that(1), of "prevout k"] that(2) by auto
  have H2: "?l2 p k = Some (GetTx e)" if "entry_indexed p e" "k \<in> ?k2 (GetTx e)" for p e k
    using that by (simp add: entry_indexed_def)
  have H3: "?l3 p k = Some (GetTx e)" if "entry_indexed p e" "k \<in> ?k3 (GetTx e)" for p e k
    using that by (simp add: entry_indexed_def)
  have H4: "?l4 p k = Some (GetTx e)" if "entry_indexed p e" "k \<in> ?k4 (GetTx e)" for p e k
    using that by (simp add: entry_indexed_def)
  from idx have i0: "pool_indexed (fst ?s0)" by simp
  note p1 = conflict_phase [where look = ?l1 and keys = ?k1 and t = t and ks = "vin t", OF H1 i0]
  from p1 have i1: "pool_indexed (fst ?s1)" by blast
  note p2 = conflict_phase [where look = ?l2 and keys = ?k2 and t = t and ks = "sprout_nullifiers t", OF H2 i1]
  from p2 have i2: "pool_indexed (fst ?s2)" by blast
  note p3 = conflict_phase [where look = ?l3 and keys = ?k3 and t = t and ks = "sapling_nullifiers t", OF H3 i2]
  from p3 have i3: "pool_indexed (fst ?s3)" by blast
  note p4 = conflict_phase [where look = ?l4 and keys = ?k4 and t = t and ks = "orchard_nullifiers t", OF H4 i3]
  from con have c0: "pool_consistent (fst ?s0)" by simp
  note q1 = conflict_fold_removal [where look = ?l1 and t = t and ks = "vin t", OF c0]
  from q1 have c1: "pool_consistent (fst ?s1)" by (rule conjunct2)
  note q2 = conflict_fold_removal [where look = ?l2 and t = t and ks = "sprout_nullifiers t", OF c1]
  from q2 have c2: "pool_consistent (fst ?s2)" by (rule conjunct2)
  note q3 = conflict_fold_removal [where look = ?l3 and t = t and ks = "sapling_nullifiers t", OF c2]
  from q3 have c3: "pool_consistent (fst ?s3)" by (rule conjunct2)
  note q4 = conflict_fold_removal [where look = ?l4 and t = t and ks = "orchard_nullifiers t", OF c3]
  from q4 have c4: "pool_consistent (fst ?s4)" by (rule conjunct2)
  note r01 = q1 [THEN conjunct1]
  note r02 = removal_trans [OF r01 q2 [THEN conjunct1]]
  note r03 = removal_trans [OF r02 q3 [THEN conjunct1]]
  note r04 = removal_trans [OF r03 q4 [THEN conjunct1]]
  have sh01: "shrinks pool (fst ?s1)"
    using shrinks_fold [where f = "\<lambda>k st. remove_conflict t (?l1 (fst st) k) st" and st = ?s0, OF shrinks_remove_conflict]
    by simp
  have sh12: "shrinks (fst ?s1) (fst ?s2)"
    by (rule shrinks_fold) (rule shrinks_remove_conflict)
  have sh23: "shrinks (fst ?s2) (fst ?s3)"
    by (rule shrinks_fold) (rule shrinks_remove_conflict)
  have sh34: "shrinks (fst ?s3) (fst ?s4)"
    by (rule shrinks_fold) (rule shrinks_remove_conflict)
  note sh02 = shrinks_trans [OF sh01 sh12]
  note sh03 = shrinks_trans [OF sh02 sh23]
  have a: "\<not> conflicts_with t e" if e4: "e \<in> set (mapTx (fst ?s4))" for e
  proof
    assume c: "conflicts_with t e"
    from e4 sh34 have e3: "e \<in> set (mapTx (fst ?s3))" using shrinks_subset by blast
    from e3 sh23 have e2: "e \<in> set (mapTx (fst ?s2))" using shrinks_subset by blast
    from e2 sh12 have e1: "e \<in> set (mapTx (fst ?s1))" using shrinks_subset by blast
    from c have ne: "GetHash (GetTx e) \<noteq> GetHash t" by (simp add: conflicts_with_def)
    from c consider
      (spend) txin where "txin \<in> set (vin t)" "prevout txin \<in> set (map prevout (vin (GetTx e)))"
      | (sprout) nf where "nf \<in> set (sprout_nullifiers t)" "nf \<in> set (sprout_nullifiers (GetTx e))"
      | (sapling) nf where "nf \<in> set (sapling_nullifiers t)" "nf \<in> set (sapling_nullifiers (GetTx e))"
      | (orchard) nf where "nf \<in> set (orchard_nullifiers t)" "nf \<in> set (orchard_nullifiers (GetTx e))"
      unfolding conflicts_with_def overlaps_def by auto
    then show False
    proof cases
      case spend
      with p1 e1 ne show False by blast
    next
      case sprout
      with p2 e2 ne show False by blast
    next
      case sapling
      with p3 e3 ne show False by blast
    next
      case orchard
      with p4 e4 ne show False by blast
    qed
  qed
  have b: "GetHash (GetTx e) \<in> reach (mapTx pool) (conflict_roots t (mapTx pool))"
    if e0: "e \<in> set (mapTx pool)" and e4: "e \<notin> set (mapTx (fst ?s4))" for e
  proof -
    have r1: "GetHash (GetTx e) \<in> reach (mapTx pool) (conflict_roots t (mapTx pool))"
      if "e \<notin> set (mapTx (fst ?s1))"
      using conflict_phase_reach [where look = ?l1 and K = "set (vin t)" and ks = "vin t"
          and st = ?s0 and t = t and e = e, OF sound spend_conflict_root [OF sound]]
        e0 that shrinks_refl by simp
    have r2: "GetHash (GetTx e) \<in> reach (mapTx pool) (conflict_roots t (mapTx pool))"
      if "e \<in> set (mapTx (fst ?s1))" "e \<notin> set (mapTx (fst ?s2))"
      using conflict_phase_reach [where look = ?l2 and K = "set (sprout_nullifiers t)"
          and ks = "sprout_nullifiers t" and st = ?s1 and t = t and e = e,
          OF sound sprout_conflict_root [OF sound]]
        that sh01 by simp
    have r3: "GetHash (GetTx e) \<in> reach (mapTx pool) (conflict_roots t (mapTx pool))"
      if "e \<in> set (mapTx (fst ?s2))" "e \<notin> set (mapTx (fst ?s3))"
      using conflict_phase_reach [where look = ?l3 and K = "set (sapling_nullifiers t)"
          and ks = "sapling_nullifiers t" and st = ?s2 and t = t and e = e,
          OF sound sapling_conflict_root [OF sound]]
        that sh02 by simp
    have r4: "GetHash (GetTx e) \<in> reach (mapTx pool) (conflict_roots t (mapTx pool))"
      if "e \<in> set (mapTx (fst ?s3))" "e \<notin> set (mapTx (fst ?s4))"
      using conflict_phase_reach [where look = ?l4 and K = "set (orchard_nullifiers t)"
          and ks = "orchard_nullifiers t" and st = ?s3 and t = t and e = e,
          OF sound orchard_conflict_root [OF sound]]
        that sh03 by simp
    from r1 r2 r3 r4 e4 show ?thesis by blast
  qed
  have d: "?s4 = (pool, removed)" if "\<exists>e \<in> set (mapTx pool). GetTx e = t"
  proof -
    from that idx obtain e where e: "entry_indexed pool e" "GetTx e = t"
      by (auto simp: pool_indexed_def)
    have "?s1 = ?s0"
      by (rule conflict_phase_noop) (use H1 [OF e(1)] e(2) in auto)
    moreover have "fold (\<lambda>k st. remove_conflict t (?l2 (fst st) k) st) (sprout_nullifiers t) ?s0 = ?s0"
      by (rule conflict_phase_noop) (use H2 [OF e(1)] e(2) in auto)
    moreover have "fold (\<lambda>k st. remove_conflict t (?l3 (fst st) k) st) (sapling_nullifiers t) ?s0 = ?s0"
      by (rule conflict_phase_noop) (use H3 [OF e(1)] e(2) in auto)
    moreover have "fold (\<lambda>k st. remove_conflict t (?l4 (fst st) k) st) (orchard_nullifiers t) ?s0 = ?s0"
      by (rule conflict_phase_noop) (use H4 [OF e(1)] e(2) in auto)
    ultimately show ?thesis by simp
  qed
  from a have A: "\<forall>e \<in> set (mapTx (fst ?s4)). \<not> conflicts_with t e" by blast
  from b have B: "\<forall>e \<in> set (mapTx pool). e \<notin> set (mapTx (fst ?s4)) \<longrightarrow>
          GetHash (GetTx e) \<in> reach (mapTx pool) (conflict_roots t (mapTx pool))" by blast
  from d have D: "(\<exists>e \<in> set (mapTx pool). GetTx e = t) \<longrightarrow> ?s4 = (pool, removed)" by blast
  show ?thesis unfolding res
    by (rule conjI [OF A conjI [OF B conjI [OF r04 conjI [OF c4 D]]]])
qed

lemma removeConflicts_exact:
  assumes con: "pool_consistent pool"
  shows "mapTx (fst (removeConflicts t removed pool))
     = filter (\<lambda>e. GetHash (GetTx e) \<notin> reach (mapTx pool) (conflict_roots t (mapTx pool))) (mapTx pool)"
proof (rule exact_from_closed)
  note f = removeConflicts_facts [OF con, of t removed]
  from f have rem: "removal (pool, removed) (removeConflicts t removed pool)" by blast
  from rem show sh: "shrinks pool (fst (removeConflicts t removed pool))" by (simp add: removal_def)
  from con show d: "txids_distinct pool" by (simp add: pool_consistent_def)
  from rem show "closed_removal pool (fst (removeConflicts t removed pool))" by (simp add: removal_def)
  from f have surv: "\<forall>e \<in> set (mapTx (fst (removeConflicts t removed pool))). \<not> conflicts_with t e"
    by blast
  show "\<forall>h \<in> conflict_roots t (mapTx pool). \<not> exists_tx (fst (removeConflicts t removed pool)) h"
  proof
    fix h assume "h \<in> conflict_roots t (mapTx pool)"
    then obtain c where c: "c \<in> set (mapTx pool)" "conflicts_with t c" "h = GetHash (GetTx c)"
      by (auto simp: conflict_roots_def)
    show "\<not> exists_tx (fst (removeConflicts t removed pool)) h"
    proof
      assume "exists_tx (fst (removeConflicts t removed pool)) h"
      then obtain e where e: "e \<in> set (mapTx (fst (removeConflicts t removed pool)))"
        "GetHash (GetTx e) = h" by (auto simp: exists_tx_iff)
      from e(1) sh have "e \<in> set (mapTx pool)" using shrinks_subset by blast
      with d have "e = c" using c(1) e(2) c(3) by (intro txids_distinct_same [of pool]) simp_all
      with e(1) c(2) surv show False by blast
    qed
  qed
  fix e
  assume "e \<in> set (mapTx pool)" "e \<notin> set (mapTx (fst (removeConflicts t removed pool)))"
  with f show "GetHash (GetTx e) \<in> reach (mapTx pool) (conflict_roots t (mapTx pool))" by blast
qed

lemma removeConflicts_removed:
  assumes con: "pool_consistent pool"
  shows "\<exists>R. snd (removeConflicts t removed pool) = removed @ R
     \<and> set R = GetTx ` {e \<in> set (mapTx pool).
                  GetHash (GetTx e) \<in> reach (mapTx pool) (conflict_roots t (mapTx pool))}"
proof -
  from removeConflicts_facts [OF con, of t removed]
  have "removal (pool, removed) (removeConflicts t removed pool)" by blast
  then obtain R where R: "snd (removeConflicts t removed pool) = removed @ R"
    "set R = GetTx ` (set (mapTx pool) - set (mapTx (fst (removeConflicts t removed pool))))"
    unfolding removal_def by auto
  have "set (mapTx pool) - set (mapTx (fst (removeConflicts t removed pool)))
      = {e \<in> set (mapTx pool). GetHash (GetTx e) \<in> reach (mapTx pool) (conflict_roots t (mapTx pool))}"
    unfolding removeConflicts_exact [OF con] by auto
  with R show ?thesis by auto
qed

text \<open>
  C2, as the code has it. In a consistent pool \<open>removeConflicts t\<close> leaves exactly the
  entries that are not reachable, by spends of existing outputs, from an entry other than
  \<open>t\<close> that shares an input or a nullifier with \<open>t\<close>: every conflicting entry is removed
  recursively, with its descendants, and nothing else is removed. The out-list grows by
  the transactions of the entries that left; no entry that stays conflicts with \<open>t\<close>;
  when \<open>t\<close> itself is in the pool nothing is removed; and the pool stays consistent.
\<close>

theorem removeConflicts_removes:
  assumes "pool_consistent pool"
  shows "mapTx (fst (removeConflicts t removed pool))
       = filter (\<lambda>e. GetHash (GetTx e) \<notin> reach (mapTx pool) (conflict_roots t (mapTx pool)))
           (mapTx pool)
    \<and> (\<exists>R. snd (removeConflicts t removed pool) = removed @ R
          \<and> set R = GetTx ` {e \<in> set (mapTx pool).
                       GetHash (GetTx e) \<in> reach (mapTx pool) (conflict_roots t (mapTx pool))})
    \<and> (\<forall>e \<in> set (mapTx (fst (removeConflicts t removed pool))). \<not> conflicts_with t e)
    \<and> ((\<exists>e \<in> set (mapTx pool). GetTx e = t) \<longrightarrow> removeConflicts t removed pool = (pool, removed))
    \<and> pool_consistent (fst (removeConflicts t removed pool))"
proof -
  note f = removeConflicts_facts [OF assms, of t removed]
  note 1 = removeConflicts_exact [OF assms, of t removed]
  note 2 = removeConflicts_removed [OF assms, of t removed]
  note 3 = f [THEN conjunct1]
  note 4 = f [THEN conjunct2, THEN conjunct2, THEN conjunct2, THEN conjunct2]
  note 5 = f [THEN conjunct2, THEN conjunct2, THEN conjunct2, THEN conjunct1]
  show ?thesis by (rule conjI [OF 1 conjI [OF 2 conjI [OF 3 conjI [OF 4 5]]]])
qed

text \<open>
  An instance: \<open>tx_x'\<close> conflicts with \<open>tx_x\<close> in \<open>pool_xy\<close>; \<open>removeConflicts tx_x'\<close> empties
  the pool and hands back \<open>tx_x\<close> and \<open>tx_y\<close>; \<open>removeConflicts tx_x\<close> removes nothing.
\<close>

theorem removeConflicts_removes_witness:
  "pool_consistent pool_xy \<and> mapTx pool_xy = [entry_x, entry_y]
   \<and> conflicts_with tx_x' entry_x \<and> \<not> overlaps tx_x' (GetTx entry_y)
   \<and> spends_output entry_y (GetTx entry_x)
   \<and> mapTx (fst (removeConflicts tx_x' [] pool_xy)) = []
   \<and> set (snd (removeConflicts tx_x' [] pool_xy)) = {tx_x, tx_y}
   \<and> snd (removeConflicts tx_x' [] pool_xy) = [tx_x, tx_y]
   \<and> GetTx entry_x = tx_x
   \<and> removeConflicts tx_x [] pool_xy = (pool_xy, [])"
proof -
  have ev: "mapTx (fst (removeConflicts tx_x' [] pool_xy)) = []"
    "snd (removeConflicts tx_x' [] pool_xy) = [tx_x, tx_y]"
    by code_simp+
  have m: "mapTx pool_xy = [entry_x, entry_y]" by code_simp
  have c: "conflicts_with tx_x' entry_x"
    by (simp add: conflicts_with_def overlaps_def tx_x'_def entry_x_def mk_entry_def tx_x_def mk_tx_def)
  have o: "\<not> overlaps tx_x' (GetTx entry_y)"
    by (simp add: overlaps_def tx_x'_def entry_y_def mk_entry_def tx_y_def mk_tx_def
        sprout_nullifiers_def sapling_nullifiers_def orchard_nullifiers_def)
  have s: "spends_output entry_y (GetTx entry_x)"
    by (simp add: spends_output_def entry_x_def entry_y_def mk_entry_def tx_x_def tx_y_def mk_tx_def)
  have x: "GetTx entry_x = tx_x" "GetTx entry_y = tx_y"
    by (simp_all add: entry_x_def entry_y_def mk_entry_def)
  from c have "GetHash (GetTx entry_x) \<in> conflict_roots tx_x' (mapTx pool_xy)"
    by (simp add: conflict_roots_def m)
  then have rx: "GetHash (GetTx entry_x) \<in> reach (mapTx pool_xy) (conflict_roots tx_x' (mapTx pool_xy))"
    by (rule reach.root)
  then have ry: "GetHash (GetTx entry_y) \<in> reach (mapTx pool_xy) (conflict_roots tx_x' (mapTx pool_xy))"
    by (rule reach.spend [where par = entry_x]) (simp_all add: m s)
  note t1 = removeConflicts_removes [OF pool_xy_consistent, where t = tx_x' and removed = "[]"]
  note t2 = removeConflicts_removes [OF pool_xy_consistent, where t = tx_x and removed = "[]"]
  from t1 [THEN conjunct1] rx ry have 1: "mapTx (fst (removeConflicts tx_x' [] pool_xy)) = []"
    by (simp add: m)
  from t1 [THEN conjunct2, THEN conjunct1] obtain R where
    R: "snd (removeConflicts tx_x' [] pool_xy) = [] @ R"
    "set R = GetTx ` {e \<in> set (mapTx pool_xy).
        GetHash (GetTx e) \<in> reach (mapTx pool_xy) (conflict_roots tx_x' (mapTx pool_xy))}"
    by blast
  have "{e \<in> set (mapTx pool_xy).
        GetHash (GetTx e) \<in> reach (mapTx pool_xy) (conflict_roots tx_x' (mapTx pool_xy))}
      = {entry_x, entry_y}"
    using rx ry by (auto simp: m)
  with R have 2: "set (snd (removeConflicts tx_x' [] pool_xy)) = {tx_x, tx_y}"
    by (simp add: x)
  from t2 have 3: "removeConflicts tx_x [] pool_xy = (pool_xy, [])"
    by (simp add: m x)
  from pool_xy_consistent m c o s 1 2 x(1) 3 ev(2) show ?thesis by blast
qed

text \<open>
  The claim as stated ("no other entry is removed") fails: \<open>tx_x'\<close> spends the outpoint
  that \<open>tx_x\<close> spends; \<open>tx_y\<close> spends an output of \<open>tx_x\<close> and shares nothing with
  \<open>tx_x'\<close>, and \<open>removeConflicts tx_x'\<close> removes it with \<open>tx_x\<close>.
\<close>

theorem removeConflicts_counterexample:
  "entry_y \<in> set (mapTx pool_xy) \<and> \<not> overlaps tx_x' (GetTx entry_y)
   \<and> entry_y \<notin> set (mapTx (fst (removeConflicts tx_x' [] pool_xy)))"
proof -
  have m: "mapTx pool_xy = [entry_x, entry_y]" by code_simp
  have o: "\<not> overlaps tx_x' (GetTx entry_y)"
    by (simp add: overlaps_def tx_x'_def entry_y_def mk_entry_def tx_y_def mk_tx_def
        sprout_nullifiers_def sapling_nullifiers_def orchard_nullifiers_def)
  have r: "mapTx (fst (removeConflicts tx_x' [] pool_xy)) = []" by code_simp
  from m o r show ?thesis by simp
qed

section \<open>Block connection\<close>

lemma removeConflicts_shrinks: "shrinks pool (fst (removeConflicts t removed pool))"
proof -
  let ?f1 = "\<lambda>txin st. remove_conflict t (map_option ptx (map_of (mapNextTx (fst st)) (prevout txin))) st"
  let ?f2 = "\<lambda>nf st. remove_conflict t (map_of (mapSproutNullifiers (fst st)) nf) st"
  let ?f3 = "\<lambda>nf st. remove_conflict t (map_of (mapSaplingNullifiers (fst st)) nf) st"
  let ?f4 = "\<lambda>nf st. remove_conflict t (map_of (mapOrchardNullifiers (fst st)) nf) st"
  let ?s1 = "fold ?f1 (vin t) (pool, removed)"
  let ?s2 = "fold ?f2 (sprout_nullifiers t) ?s1"
  let ?s3 = "fold ?f3 (sapling_nullifiers t) ?s2"
  let ?s4 = "fold ?f4 (orchard_nullifiers t) ?s3"
  have 1: "shrinks (fst (pool, removed)) (fst ?s1)"
    by (rule shrinks_fold) (rule shrinks_remove_conflict)
  have 2: "shrinks (fst ?s1) (fst ?s2)"
    by (rule shrinks_fold) (rule shrinks_remove_conflict)
  have 3: "shrinks (fst ?s2) (fst ?s3)"
    by (rule shrinks_fold) (rule shrinks_remove_conflict)
  have 4: "shrinks (fst ?s3) (fst ?s4)"
    by (rule shrinks_fold) (rule shrinks_remove_conflict)
  have "shrinks (fst (pool, removed)) (fst ?s4)"
    by (rule shrinks_trans [OF shrinks_trans [OF shrinks_trans [OF 1 2] 3] 4])
  then show ?thesis unfolding removeConflicts_phases by simp
qed

lemma block_step_eq:
  "block_step t st =
     (ClearPrioritisation (GetHash t)
        (fst (removeConflicts t (snd st) (fst (remove_tx t [] False (fst st))))),
      snd (removeConflicts t (snd st) (fst (remove_tx t [] False (fst st)))))"
  by (simp add: block_step_def split_def Let_def)

lemma block_step_shrinks: "shrinks (fst st) (fst (block_step t st))"
proof -
  let ?p1 = "fst (remove_tx t [] False (fst st))"
  let ?p2 = "fst (removeConflicts t (snd st) ?p1)"
  have 1: "shrinks (fst st) ?p1" by (rule remove_tx_shrinks)
  have 2: "shrinks ?p1 ?p2" by (rule removeConflicts_shrinks)
  have 3: "shrinks ?p2 (ClearPrioritisation (GetHash t) ?p2)"
    by (rule ClearPrioritisation_shrinks)
  have "shrinks (fst st) (ClearPrioritisation (GetHash t) ?p2)"
    by (rule shrinks_trans [OF shrinks_trans [OF 1 2] 3])
  then show ?thesis unfolding block_step_eq by simp
qed

lemma shrinks_delta_None:
  assumes "shrinks p p'" and "map_of (mapDeltas p) h = None"
  shows "map_of (mapDeltas p') h = None"
proof -
  from assms(1) have "map_of (mapDeltas p') \<subseteq>\<^sub>m map_of (mapDeltas p)" by (simp add: shrinks_def)
  then have "dom (map_of (mapDeltas p')) \<subseteq> dom (map_of (mapDeltas p))" by (rule map_le_implies_dom_le)
  with assms(2) show ?thesis by (meson domIff subsetD)
qed

lemma block_step_done:
  "\<not> exists_tx (fst (block_step t st)) (GetHash t)
   \<and> map_of (mapDeltas (fst (block_step t st))) (GetHash t) = None"
proof -
  let ?p1 = "fst (remove_tx t [] False (fst st))"
  let ?p2 = "fst (removeConflicts t (snd st) ?p1)"
  have a: "\<not> exists_tx ?p1 (GetHash t)" by (rule remove_tx_absent)
  have "shrinks ?p1 (ClearPrioritisation (GetHash t) ?p2)"
    by (rule shrinks_trans [OF removeConflicts_shrinks ClearPrioritisation_shrinks])
  then have "shrinks ?p1 (fst (block_step t st))"
    unfolding block_step_eq by simp
  then have 1: "\<not> exists_tx (fst (block_step t st)) (GetHash t)" using a by (rule shrinks_absent)
  have 2: "map_of (mapDeltas (fst (block_step t st))) (GetHash t) = None"
    unfolding block_step_eq by (simp add: ClearPrioritisation_def delete_conv')
  from 1 2 show ?thesis by (rule conjI)
qed

lemma fold_block_step_shrinks: "shrinks (fst st) (fst (fold block_step vtx st))"
  by (rule shrinks_fold) (rule block_step_shrinks)

lemma fold_block_step_done:
  "t \<in> set vtx \<Longrightarrow>
     \<not> exists_tx (fst (fold block_step vtx st)) (GetHash t)
     \<and> map_of (mapDeltas (fst (fold block_step vtx st))) (GetHash t) = None"
proof (induction vtx arbitrary: st)
  case Nil
  then show ?case by simp
next
  case (Cons a vtx)
  show ?case
  proof (cases "t \<in> set vtx")
    case True
    then have "\<not> exists_tx (fst (fold block_step vtx (block_step a st))) (GetHash t)
      \<and> map_of (mapDeltas (fst (fold block_step vtx (block_step a st)))) (GetHash t) = None"
      by (rule Cons.IH)
    then show ?thesis by simp
  next
    case False
    with Cons.prems have ta: "t = a" by simp
    have sh: "shrinks (fst (block_step a st)) (fst (fold block_step vtx (block_step a st)))"
      by (rule fold_block_step_shrinks)
    note d = block_step_done [of a st]
    from sh d [THEN conjunct1]
    have 1: "\<not> exists_tx (fst (fold block_step vtx (block_step a st))) (GetHash a)"
      by (rule shrinks_absent)
    from sh d [THEN conjunct2]
    have 2: "map_of (mapDeltas (fst (fold block_step vtx (block_step a st)))) (GetHash a) = None"
      by (rule shrinks_delta_None)
    from 1 2 show ?thesis unfolding ta by simp
  qed
qed

lemma pool_consistent_ClearPrioritisation [simp]:
  "pool_consistent (ClearPrioritisation h p) = pool_consistent p"
  by (simp add: ClearPrioritisation_def pool_consistent_def pool_indexed_def entry_indexed_def
      entry_spends_marked_def rows_sound_def txids_distinct_def)

lemma mapTx_ClearPrioritisation [simp]: "mapTx (ClearPrioritisation h p) = mapTx p"
  by (simp add: ClearPrioritisation_def)

lemma reach_empty: "reach m {} = {}"
proof -
  have "h \<in> reach m {} \<Longrightarrow> False" for h
    by (induction rule: reach.induct) simp_all
  then show ?thesis by blast
qed

lemma reach_mono:
  assumes "set m \<subseteq> set m'" and "R \<subseteq> R'"
  shows "h \<in> reach m R \<Longrightarrow> h \<in> reach m' R'"
proof (induction rule: reach.induct)
  case (root h)
  with assms(2) show ?case by (auto intro: reach.root)
next
  case (spend h par e)
  from spend.hyps(2,4) assms(1) have "par \<in> set m'" "e \<in> set m'" by auto
  with spend.IH spend.hyps(3,5) show ?case by (intro reach.spend [where par = par and h = h])
qed

lemma conflict_roots_mono: "set m \<subseteq> set m' \<Longrightarrow> conflict_roots t m \<subseteq> conflict_roots t m'"
  by (auto simp: conflict_roots_def)

text \<open>
  One step of the block loop in a consistent pool. With \<open>m\<close> the entries other than the
  one with the txid of \<open>t\<close>, the step leaves exactly the entries of \<open>m\<close> that are not
  reachable in \<open>m\<close> from an entry that conflicts with \<open>t\<close>; the out-list grows by the
  transactions of the entries of \<open>m\<close> that left; the delta of \<open>t\<close> is gone.
\<close>

lemma block_step_exact:
  assumes con: "pool_consistent (fst st)"
  shows "mapTx (fst (block_step t st))
       = filter (\<lambda>e. GetHash (GetTx e) \<notin> reach (mapTx_erase (GetHash t) (mapTx (fst st)))
                    (conflict_roots t (mapTx_erase (GetHash t) (mapTx (fst st)))))
           (mapTx_erase (GetHash t) (mapTx (fst st)))
    \<and> (\<exists>R. snd (block_step t st) = snd st @ R
          \<and> set R = GetTx ` {e \<in> set (mapTx_erase (GetHash t) (mapTx (fst st))).
                       GetHash (GetTx e) \<in> reach (mapTx_erase (GetHash t) (mapTx (fst st)))
                         (conflict_roots t (mapTx_erase (GetHash t) (mapTx (fst st))))})
    \<and> pool_consistent (fst (block_step t st))
    \<and> (\<forall>e \<in> set (mapTx (fst (block_step t st))). \<not> conflicts_with t e)"
proof -
  let ?p1 = "fst (remove_tx t [] False (fst st))"
  have m1: "mapTx ?p1 = mapTx_erase (GetHash t) (mapTx (fst st))"
    by (rule remove_tx_exact_nonrec)
  from con have c1: "pool_consistent ?p1" by (rule remove_tx_consistent)
  note f = removeConflicts_facts [OF c1, of t "snd st"]
  note 1 = removeConflicts_exact [OF c1, of t "snd st", unfolded m1]
  note 2 = removeConflicts_removed [OF c1, of t "snd st", unfolded m1]
  note 3 = f [THEN conjunct2, THEN conjunct2, THEN conjunct2, THEN conjunct1]
  note 4 = f [THEN conjunct1]
  have a: "mapTx (fst (block_step t st)) = mapTx (fst (removeConflicts t (snd st) ?p1))"
    unfolding block_step_eq by simp
  have b: "snd (block_step t st) = snd (removeConflicts t (snd st) ?p1)"
    unfolding block_step_eq by simp
  have c: "pool_consistent (fst (block_step t st))
      = pool_consistent (fst (removeConflicts t (snd st) ?p1))"
    unfolding block_step_eq by simp
  show ?thesis unfolding a b c
    by (rule conjI [OF 1 conjI [OF 2 conjI [OF 3 4]]])
qed

lemma fold_block_step_consistent:
  "pool_consistent (fst st) \<Longrightarrow> pool_consistent (fst (fold block_step vtx st))"
proof (induction vtx arbitrary: st)
  case Nil
  then show ?case by simp
next
  case (Cons t vtx)
  from Cons.prems have "pool_consistent (fst (block_step t st))"
    using block_step_exact by blast
  then have "pool_consistent (fst (fold block_step vtx (block_step t st)))" by (rule Cons.IH)
  then show ?case by simp
qed

lemma fold_take_Suc:
  "k < length xs \<Longrightarrow> fold f (take (Suc k) xs) s = f (xs ! k) (fold f (take k xs) s)"
  by (simp add: take_Suc_conv_app_nth)

lemma removeForBlock_fold:
  "removeForBlock vtx nBlockHeight conflicts fCurrentEstimate pool =
     ((fst (fold block_step vtx (pool, conflicts)))
        \<lparr>minerPolicyEstimator := minerPolicyEstimator (fst (fold block_step vtx (pool, conflicts))) @
           [processBlock nBlockHeight
              (List.map_filter (\<lambda>t. mapTx_find (mapTx pool) (GetHash t)) vtx) fCurrentEstimate]\<rparr>,
      snd (fold block_step vtx (pool, conflicts)))"
  by (simp add: removeForBlock_def Let_def split_def)

lemma pool_consistent_estimator [simp]:
  "pool_consistent (p\<lparr>minerPolicyEstimator := X\<rparr>) = pool_consistent p"
  by (simp add: pool_consistent_def pool_indexed_def entry_indexed_def
      entry_spends_marked_def rows_sound_def txids_distinct_def)

lemma block_step_left:
  assumes con: "pool_consistent (fst st)"
    and e: "e \<in> set (mapTx (fst st))" "e \<notin> set (mapTx (fst (block_step t st)))"
  shows "GetHash (GetTx e) = GetHash t
     \<or> GetHash (GetTx e) \<in> reach (mapTx (fst st)) (conflict_roots t (mapTx (fst st)))"
proof (cases "GetHash (GetTx e) = GetHash t")
  case True
  then show ?thesis by simp
next
  case False
  let ?m = "mapTx_erase (GetHash t) (mapTx (fst st))"
  from False e(1) have em: "e \<in> set ?m" by (simp add: mapTx_erase_def)
  from block_step_exact [OF con, of t, THEN conjunct1] e(2) em
  have r: "GetHash (GetTx e) \<in> reach ?m (conflict_roots t ?m)" by simp
  have sub: "set ?m \<subseteq> set (mapTx (fst st))" by (simp add: mapTx_erase_def)
  then have "conflict_roots t ?m \<subseteq> conflict_roots t (mapTx (fst st))" by (rule conflict_roots_mono)
  with sub have "GetHash (GetTx e) \<in> reach (mapTx (fst st)) (conflict_roots t (mapTx (fst st)))"
    using r by (rule reach_mono)
  then show ?thesis by simp
qed

lemma block_step_conflicts:
  assumes con: "pool_consistent (fst st)"
  shows "\<exists>R. snd (block_step t st) = snd st @ R
     \<and> set R \<subseteq> GetTx ` (set (mapTx (fst st)) - set (mapTx (fst (block_step t st))))
     \<and> GetTx ` {e \<in> set (mapTx (fst st)) - set (mapTx (fst (block_step t st))).
                 GetHash (GetTx e) \<noteq> GetHash t} \<subseteq> set R"
proof -
  let ?m = "mapTx_erase (GetHash t) (mapTx (fst st))"
  note x = block_step_exact [OF con, of t]
  from x [THEN conjunct2, THEN conjunct1] obtain R where R: "snd (block_step t st) = snd st @ R"
    "set R = GetTx ` {e \<in> set ?m. GetHash (GetTx e) \<in> reach ?m (conflict_roots t ?m)}"
    by blast
  note m' = x [THEN conjunct1]
  have "{e \<in> set ?m. GetHash (GetTx e) \<in> reach ?m (conflict_roots t ?m)}
      = {e \<in> set (mapTx (fst st)) - set (mapTx (fst (block_step t st))).
                 GetHash (GetTx e) \<noteq> GetHash t}"
    unfolding m' by (auto simp: mapTx_erase_def)
  with R(2) have s: "set R = GetTx ` {e \<in> set (mapTx (fst st)) - set (mapTx (fst (block_step t st))).
                 GetHash (GetTx e) \<noteq> GetHash t}" by simp
  then have "set R \<subseteq> GetTx ` (set (mapTx (fst st)) - set (mapTx (fst (block_step t st))))"
    by blast
  with R(1) s show ?thesis by blast
qed

lemma fold_block_step_survivors:
  "pool_consistent (fst st) \<Longrightarrow> e \<in> set (mapTx (fst (fold block_step vtx st)))
     \<Longrightarrow> t \<in> set vtx \<Longrightarrow> \<not> overlaps t (GetTx e)"
proof (induction vtx arbitrary: st)
  case Nil
  then show ?case by simp
next
  case (Cons a vtx)
  let ?st1 = "block_step a st"
  note x = block_step_exact [OF Cons.prems(1), of a]
  from x have c1: "pool_consistent (fst ?st1)" by blast
  from Cons.prems(2) have ef: "e \<in> set (mapTx (fst (fold block_step vtx ?st1)))" by simp
  show ?case
  proof (cases "t \<in> set vtx")
    case True
    with c1 ef show ?thesis by (rule Cons.IH)
  next
    case False
    with Cons.prems(3) have ta: "t = a" by simp
    have "set (mapTx (fst (fold block_step vtx ?st1))) \<subseteq> set (mapTx (fst ?st1))"
      using fold_block_step_shrinks by (rule shrinks_subset)
    with ef have e1: "e \<in> set (mapTx (fst ?st1))" by blast
    with x have nc: "\<not> conflicts_with a e" by blast
    from block_step_done [of a st] have "\<not> exists_tx (fst ?st1) (GetHash a)" by (rule conjunct1)
    with e1 have "GetHash (GetTx e) \<noteq> GetHash a" by (auto simp: exists_tx_iff)
    with nc show ?thesis unfolding ta by (simp add: conflicts_with_def)
  qed
qed

lemma fold_block_step_left:
  "pool_consistent (fst st) \<Longrightarrow> e \<in> set (mapTx (fst st))
     \<Longrightarrow> e \<notin> set (mapTx (fst (fold block_step vtx st)))
     \<Longrightarrow> GetHash (GetTx e) \<in> GetHash ` set vtx
        \<or> GetHash (GetTx e) \<in> reach (mapTx (fst st)) (\<Union>t \<in> set vtx. conflict_roots t (mapTx (fst st)))"
proof (induction vtx arbitrary: st)
  case Nil
  then show ?case by simp
next
  case (Cons a vtx)
  let ?st1 = "block_step a st"
  let ?U = "\<Union>t \<in> set (a # vtx). conflict_roots t (mapTx (fst st))"
  from Cons.prems(1) have c1: "pool_consistent (fst ?st1)" using block_step_exact by blast
  have sub: "set (mapTx (fst ?st1)) \<subseteq> set (mapTx (fst st))"
    using block_step_shrinks by (rule shrinks_subset)
  show ?case
  proof (cases "e \<in> set (mapTx (fst ?st1))")
    case True
    from Cons.prems(3) have "e \<notin> set (mapTx (fst (fold block_step vtx ?st1)))" by simp
    with c1 True have "GetHash (GetTx e) \<in> GetHash ` set vtx
        \<or> GetHash (GetTx e) \<in> reach (mapTx (fst ?st1)) (\<Union>t \<in> set vtx. conflict_roots t (mapTx (fst ?st1)))"
      by (rule Cons.IH)
    then show ?thesis
    proof
      assume "GetHash (GetTx e) \<in> GetHash ` set vtx"
      then show ?thesis by auto
    next
      assume r: "GetHash (GetTx e) \<in> reach (mapTx (fst ?st1)) (\<Union>t \<in> set vtx. conflict_roots t (mapTx (fst ?st1)))"
      have "(\<Union>t \<in> set vtx. conflict_roots t (mapTx (fst ?st1))) \<subseteq> ?U"
        using conflict_roots_mono [OF sub] by auto
      with sub have "GetHash (GetTx e) \<in> reach (mapTx (fst st)) ?U" using r by (rule reach_mono)
      then show ?thesis by (rule disjI2)
    qed
  next
    case False
    with Cons.prems(1,2) have "GetHash (GetTx e) = GetHash a
        \<or> GetHash (GetTx e) \<in> reach (mapTx (fst st)) (conflict_roots a (mapTx (fst st)))"
      by (rule block_step_left)
    then show ?thesis
    proof
      assume "GetHash (GetTx e) = GetHash a"
      then show ?thesis by simp
    next
      assume r: "GetHash (GetTx e) \<in> reach (mapTx (fst st)) (conflict_roots a (mapTx (fst st)))"
      have "conflict_roots a (mapTx (fst st)) \<subseteq> ?U" by auto
      with subset_refl have "GetHash (GetTx e) \<in> reach (mapTx (fst st)) ?U" using r by (rule reach_mono)
      then show ?thesis by (rule disjI2)
    qed
  qed
qed

lemma fold_block_step_conflicts:
  "pool_consistent (fst st) \<Longrightarrow>
     \<exists>R. snd (fold block_step vtx st) = snd st @ R
       \<and> set R \<subseteq> GetTx ` (set (mapTx (fst st)) - set (mapTx (fst (fold block_step vtx st))))
       \<and> GetTx ` {e \<in> set (mapTx (fst st)) - set (mapTx (fst (fold block_step vtx st))).
                   GetHash (GetTx e) \<notin> GetHash ` set vtx} \<subseteq> set R"
proof (induction vtx arbitrary: st)
  case Nil
  then show ?case by simp
next
  case (Cons a vtx)
  let ?st1 = "block_step a st"
  let ?fin = "fold block_step vtx ?st1"
  from Cons.prems have c1: "pool_consistent (fst ?st1)" using block_step_exact by blast
  from block_step_conflicts [OF Cons.prems, of a] obtain R1 where R1: "snd ?st1 = snd st @ R1"
    "set R1 \<subseteq> GetTx ` (set (mapTx (fst st)) - set (mapTx (fst ?st1)))"
    "GetTx ` {e \<in> set (mapTx (fst st)) - set (mapTx (fst ?st1)). GetHash (GetTx e) \<noteq> GetHash a} \<subseteq> set R1"
    by blast
  from Cons.IH [OF c1] obtain R2 where R2: "snd ?fin = snd ?st1 @ R2"
    "set R2 \<subseteq> GetTx ` (set (mapTx (fst ?st1)) - set (mapTx (fst ?fin)))"
    "GetTx ` {e \<in> set (mapTx (fst ?st1)) - set (mapTx (fst ?fin)). GetHash (GetTx e) \<notin> GetHash ` set vtx} \<subseteq> set R2"
    by blast
  have s1: "set (mapTx (fst ?st1)) \<subseteq> set (mapTx (fst st))"
    using block_step_shrinks by (rule shrinks_subset)
  have s2: "set (mapTx (fst ?fin)) \<subseteq> set (mapTx (fst ?st1))"
    using fold_block_step_shrinks by (rule shrinks_subset)
  have a: "snd ?fin = snd st @ (R1 @ R2)" using R1(1) R2(1) by simp
  have b: "set (R1 @ R2) \<subseteq> GetTx ` (set (mapTx (fst st)) - set (mapTx (fst ?fin)))"
  proof
    fix x assume "x \<in> set (R1 @ R2)"
    then consider "x \<in> set R1" | "x \<in> set R2" by auto
    then show "x \<in> GetTx ` (set (mapTx (fst st)) - set (mapTx (fst ?fin)))"
    proof cases
      case 1
      with R1(2) obtain e where "e \<in> set (mapTx (fst st))" "e \<notin> set (mapTx (fst ?st1))" "x = GetTx e"
        by blast
      with s2 show ?thesis by blast
    next
      case 2
      with R2(2) obtain e where "e \<in> set (mapTx (fst ?st1))" "e \<notin> set (mapTx (fst ?fin))" "x = GetTx e"
        by blast
      with s1 show ?thesis by blast
    qed
  qed
  have c: "GetTx ` {e \<in> set (mapTx (fst st)) - set (mapTx (fst ?fin)).
                   GetHash (GetTx e) \<notin> GetHash ` set (a # vtx)} \<subseteq> set (R1 @ R2)"
  proof
    fix x assume "x \<in> GetTx ` {e \<in> set (mapTx (fst st)) - set (mapTx (fst ?fin)).
                   GetHash (GetTx e) \<notin> GetHash ` set (a # vtx)}"
    then obtain e where e: "e \<in> set (mapTx (fst st))" "e \<notin> set (mapTx (fst ?fin))"
      "GetHash (GetTx e) \<noteq> GetHash a" "GetHash (GetTx e) \<notin> GetHash ` set vtx" "x = GetTx e"
      by auto
    show "x \<in> set (R1 @ R2)"
    proof (cases "e \<in> set (mapTx (fst ?st1))")
      case True
      with e(2,4) have "GetTx e \<in> GetTx ` {e \<in> set (mapTx (fst ?st1)) - set (mapTx (fst ?fin)). GetHash (GetTx e) \<notin> GetHash ` set vtx}"
        by blast
      with R2(3) e(5) show ?thesis by auto
    next
      case False
      with e(1,3) have "GetTx e \<in> GetTx ` {e \<in> set (mapTx (fst st)) - set (mapTx (fst ?st1)). GetHash (GetTx e) \<noteq> GetHash a}"
        by blast
      with R1(3) e(5) show ?thesis by auto
    qed
  qed
  have "\<exists>R. snd ?fin = snd st @ R
       \<and> set R \<subseteq> GetTx ` (set (mapTx (fst st)) - set (mapTx (fst ?fin)))
       \<and> GetTx ` {e \<in> set (mapTx (fst st)) - set (mapTx (fst ?fin)).
                   GetHash (GetTx e) \<notin> GetHash ` set (a # vtx)} \<subseteq> set R"
    using a b c by blast
  then show ?case by simp
qed

lemma removeForBlock_step:
  assumes con: "pool_consistent pool" and k: "k < length vtx"
  shows "(let s = removeForBlock (take k vtx) nBlockHeight conflicts fCurrentEstimate pool;
              s' = removeForBlock (take (Suc k) vtx) nBlockHeight conflicts fCurrentEstimate pool;
              t = vtx ! k;
              m = filter (\<lambda>e. GetHash (GetTx e) \<noteq> GetHash t) (mapTx (fst s))
          in mapTx (fst s') = filter (\<lambda>e. GetHash (GetTx e) \<notin> reach m (conflict_roots t m)) m
             \<and> (\<exists>R. snd s' = snd s @ R
                   \<and> set R = GetTx ` {e \<in> set m. GetHash (GetTx e) \<in> reach m (conflict_roots t m)})
             \<and> map_of (mapDeltas (fst s')) (GetHash t) = None)"
proof -
  let ?st = "fold block_step (take k vtx) (pool, conflicts)"
  let ?st' = "fold block_step (take (Suc k) vtx) (pool, conflicts)"
  from con have "pool_consistent (fst (pool, conflicts))" by simp
  then have c: "pool_consistent (fst ?st)" by (rule fold_block_step_consistent)
  from k have st': "?st' = block_step (vtx ! k) ?st" by (rule fold_take_Suc)
  note x = block_step_exact [OF c, of "vtx ! k", folded st', unfolded mapTx_erase_def]
  have d: "map_of (mapDeltas (fst ?st')) (GetHash (vtx ! k)) = None"
    unfolding st' using block_step_done by blast
  from x [THEN conjunct1] x [THEN conjunct2, THEN conjunct1] d
  show ?thesis
    unfolding Let_def removeForBlock_fold by simp
qed

text \<open>
  C5. \<open>removeForBlock\<close> hands the estimator, as its last call and after the \<open>removeTx\<close>
  notifications of all removals, the entries that the pool held for the transactions of
  \<open>vtx\<close> before anything was removed. Afterwards no transaction of \<open>vtx\<close> is in the pool
  or has a stored delta, so the snapshot's entries are not among the surviving entries.
  In a consistent pool the step for the \<open>k\<close>-th transaction \<open>t\<close>, from the state after the
  first \<open>k\<close> transactions to the state after the first \<open>k + 1\<close>, is this: the entry with
  the txid of \<open>t\<close> leaves alone (the removal is not recursive: an entry that spends an
  output of \<open>t\<close> stays unless a conflict takes it); of the other entries \<open>m\<close>, exactly
  those reachable in \<open>m\<close> from an entry that conflicts with \<open>t\<close> leave, and their
  transactions, not \<open>t\<close>, are appended to the conflicts list; the delta of \<open>t\<close> is
  dropped. For the whole block: no surviving entry shares an input or a nullifier with a
  transaction of \<open>vtx\<close>; an entry leaves only if it has the txid of a transaction of
  \<open>vtx\<close> or is reachable from a conflicting entry; the conflicts list grows by
  transactions of entries that left, among them all those whose txid is not in \<open>vtx\<close>.
\<close>

theorem removeForBlock_order:
  assumes run: "removeForBlock vtx nBlockHeight conflicts fCurrentEstimate pool = (pool', conflicts')"
  shows "(\<exists>p hs. fold block_step vtx (pool, conflicts) = (p, conflicts')
            \<and> minerPolicyEstimator p = minerPolicyEstimator pool @ map removeTx hs
            \<and> pool' = p\<lparr>minerPolicyEstimator := minerPolicyEstimator p @
                 [processBlock nBlockHeight
                    (List.map_filter (\<lambda>t. mapTx_find (mapTx pool) (GetHash t)) vtx)
                    fCurrentEstimate]\<rparr>)
    \<and> (\<forall>t \<in> set vtx. \<not> exists_tx pool' (GetHash t)
          \<and> map_of (mapDeltas pool') (GetHash t) = None)
    \<and> (\<forall>e \<in> set (List.map_filter (\<lambda>t. mapTx_find (mapTx pool) (GetHash t)) vtx).
          e \<in> set (mapTx pool) \<and> e \<notin> set (mapTx pool'))
    \<and> (\<exists>P. mapTx pool' = filter P (mapTx pool))
    \<and> (pool_consistent pool \<longrightarrow>
          (\<forall>k < length vtx.
             let s = removeForBlock (take k vtx) nBlockHeight conflicts fCurrentEstimate pool;
                 s' = removeForBlock (take (Suc k) vtx) nBlockHeight conflicts fCurrentEstimate pool;
                 t = vtx ! k;
                 m = filter (\<lambda>e. GetHash (GetTx e) \<noteq> GetHash t) (mapTx (fst s))
             in mapTx (fst s') = filter (\<lambda>e. GetHash (GetTx e) \<notin> reach m (conflict_roots t m)) m
                \<and> (\<exists>R. snd s' = snd s @ R
                      \<and> set R = GetTx ` {e \<in> set m. GetHash (GetTx e) \<in> reach m (conflict_roots t m)})
                \<and> map_of (mapDeltas (fst s')) (GetHash t) = None)
          \<and> (\<forall>e \<in> set (mapTx pool'). \<forall>t \<in> set vtx. \<not> overlaps t (GetTx e))
          \<and> (\<forall>e \<in> set (mapTx pool). e \<notin> set (mapTx pool') \<longrightarrow>
                GetHash (GetTx e) \<in> GetHash ` set vtx
                \<or> GetHash (GetTx e) \<in> reach (mapTx pool) (\<Union>t \<in> set vtx. conflict_roots t (mapTx pool)))
          \<and> (\<exists>R. conflicts' = conflicts @ R
                \<and> set R \<subseteq> GetTx ` (set (mapTx pool) - set (mapTx pool'))
                \<and> GetTx ` {e \<in> set (mapTx pool) - set (mapTx pool').
                            GetHash (GetTx e) \<notin> GetHash ` set vtx} \<subseteq> set R))"
proof -
  let ?snap = "List.map_filter (\<lambda>t. mapTx_find (mapTx pool) (GetHash t)) vtx"
  obtain p c where f: "fold block_step vtx (pool, conflicts) = (p, c)"
    by (cases "fold block_step vtx (pool, conflicts)")
  with run have c: "c = conflicts'"
    and pool': "pool' = p\<lparr>minerPolicyEstimator := minerPolicyEstimator p @
        [processBlock nBlockHeight ?snap fCurrentEstimate]\<rparr>"
    by (simp_all add: removeForBlock_fold)
  from pool' have m': "mapTx pool' = mapTx p" by simp
  have "shrinks (fst (pool, conflicts)) (fst (fold block_step vtx (pool, conflicts)))"
    by (rule fold_block_step_shrinks)
  with f have sh: "shrinks pool p" by simp
  then obtain hs where hs: "minerPolicyEstimator p = minerPolicyEstimator pool @ map removeTx hs"
    unfolding shrinks_def by blast
  have 1: "\<exists>p hs. fold block_step vtx (pool, conflicts) = (p, conflicts')
            \<and> minerPolicyEstimator p = minerPolicyEstimator pool @ map removeTx hs
            \<and> pool' = p\<lparr>minerPolicyEstimator := minerPolicyEstimator p @
                 [processBlock nBlockHeight ?snap fCurrentEstimate]\<rparr>"
    using f c hs pool' by blast
  have gone: "\<not> exists_tx pool' (GetHash t) \<and> map_of (mapDeltas pool') (GetHash t) = None"
    if "t \<in> set vtx" for t
    using fold_block_step_done [OF that, of "(pool, conflicts)"] f
    by (simp add: pool' exists_tx_def)
  have snap: "e \<in> set (mapTx pool) \<and> e \<notin> set (mapTx pool')" if "e \<in> set ?snap" for e
  proof -
    from that obtain t where t: "t \<in> set vtx" and e: "mapTx_find (mapTx pool) (GetHash t) = Some e"
      by (auto simp: List.map_filter_def)
    from e have "e \<in> set (mapTx pool)" and "GetHash (GetTx e) = GetHash t"
      by (simp_all add: mapTx_find_Some_set)
    moreover from t have "\<not> exists_tx pool' (GetHash t)" using gone by blast
    ultimately show ?thesis by (auto simp: exists_tx_iff)
  qed
  from sh have 4: "\<exists>P. mapTx pool' = filter P (mapTx pool)"
    by (simp add: shrinks_def pool')
  from gone have 2: "\<forall>t \<in> set vtx. \<not> exists_tx pool' (GetHash t)
          \<and> map_of (mapDeltas pool') (GetHash t) = None"
    by blast
  from snap have 3: "\<forall>e \<in> set ?snap. e \<in> set (mapTx pool) \<and> e \<notin> set (mapTx pool')"
    by blast
  have 5: "pool_consistent pool \<longrightarrow>
          (\<forall>k < length vtx.
             let s = removeForBlock (take k vtx) nBlockHeight conflicts fCurrentEstimate pool;
                 s' = removeForBlock (take (Suc k) vtx) nBlockHeight conflicts fCurrentEstimate pool;
                 t = vtx ! k;
                 m = filter (\<lambda>e. GetHash (GetTx e) \<noteq> GetHash t) (mapTx (fst s))
             in mapTx (fst s') = filter (\<lambda>e. GetHash (GetTx e) \<notin> reach m (conflict_roots t m)) m
                \<and> (\<exists>R. snd s' = snd s @ R
                      \<and> set R = GetTx ` {e \<in> set m. GetHash (GetTx e) \<in> reach m (conflict_roots t m)})
                \<and> map_of (mapDeltas (fst s')) (GetHash t) = None)
          \<and> (\<forall>e \<in> set (mapTx pool'). \<forall>t \<in> set vtx. \<not> overlaps t (GetTx e))
          \<and> (\<forall>e \<in> set (mapTx pool). e \<notin> set (mapTx pool') \<longrightarrow>
                GetHash (GetTx e) \<in> GetHash ` set vtx
                \<or> GetHash (GetTx e) \<in> reach (mapTx pool) (\<Union>t \<in> set vtx. conflict_roots t (mapTx pool)))
          \<and> (\<exists>R. conflicts' = conflicts @ R
                \<and> set R \<subseteq> GetTx ` (set (mapTx pool) - set (mapTx pool'))
                \<and> GetTx ` {e \<in> set (mapTx pool) - set (mapTx pool').
                            GetHash (GetTx e) \<notin> GetHash ` set vtx} \<subseteq> set R)"
  proof
    assume con: "pool_consistent pool"
    then have c0: "pool_consistent (fst (pool, conflicts))" by simp
    have a: "\<forall>k < length vtx.
             let s = removeForBlock (take k vtx) nBlockHeight conflicts fCurrentEstimate pool;
                 s' = removeForBlock (take (Suc k) vtx) nBlockHeight conflicts fCurrentEstimate pool;
                 t = vtx ! k;
                 m = filter (\<lambda>e. GetHash (GetTx e) \<noteq> GetHash t) (mapTx (fst s))
             in mapTx (fst s') = filter (\<lambda>e. GetHash (GetTx e) \<notin> reach m (conflict_roots t m)) m
                \<and> (\<exists>R. snd s' = snd s @ R
                      \<and> set R = GetTx ` {e \<in> set m. GetHash (GetTx e) \<in> reach m (conflict_roots t m)})
                \<and> map_of (mapDeltas (fst s')) (GetHash t) = None"
      using removeForBlock_step [OF con] by blast
    have b: "\<forall>e \<in> set (mapTx pool'). \<forall>t \<in> set vtx. \<not> overlaps t (GetTx e)"
      using fold_block_step_survivors [OF c0, of _ vtx] f by (simp add: m')
    have d: "\<forall>e \<in> set (mapTx pool). e \<notin> set (mapTx pool') \<longrightarrow>
                GetHash (GetTx e) \<in> GetHash ` set vtx
                \<or> GetHash (GetTx e) \<in> reach (mapTx pool) (\<Union>t \<in> set vtx. conflict_roots t (mapTx pool))"
      using fold_block_step_left [OF c0, of _ vtx] f by (simp add: m')
    have e: "\<exists>R. conflicts' = conflicts @ R
                \<and> set R \<subseteq> GetTx ` (set (mapTx pool) - set (mapTx pool'))
                \<and> GetTx ` {e \<in> set (mapTx pool) - set (mapTx pool').
                            GetHash (GetTx e) \<notin> GetHash ` set vtx} \<subseteq> set R"
      using fold_block_step_conflicts [OF c0, of vtx] f c by (simp add: m')
    show "(\<forall>k < length vtx.
             let s = removeForBlock (take k vtx) nBlockHeight conflicts fCurrentEstimate pool;
                 s' = removeForBlock (take (Suc k) vtx) nBlockHeight conflicts fCurrentEstimate pool;
                 t = vtx ! k;
                 m = filter (\<lambda>e. GetHash (GetTx e) \<noteq> GetHash t) (mapTx (fst s))
             in mapTx (fst s') = filter (\<lambda>e. GetHash (GetTx e) \<notin> reach m (conflict_roots t m)) m
                \<and> (\<exists>R. snd s' = snd s @ R
                      \<and> set R = GetTx ` {e \<in> set m. GetHash (GetTx e) \<in> reach m (conflict_roots t m)})
                \<and> map_of (mapDeltas (fst s')) (GetHash t) = None)
          \<and> (\<forall>e \<in> set (mapTx pool'). \<forall>t \<in> set vtx. \<not> overlaps t (GetTx e))
          \<and> (\<forall>e \<in> set (mapTx pool). e \<notin> set (mapTx pool') \<longrightarrow>
                GetHash (GetTx e) \<in> GetHash ` set vtx
                \<or> GetHash (GetTx e) \<in> reach (mapTx pool) (\<Union>t \<in> set vtx. conflict_roots t (mapTx pool)))
          \<and> (\<exists>R. conflicts' = conflicts @ R
                \<and> set R \<subseteq> GetTx ` (set (mapTx pool) - set (mapTx pool'))
                \<and> GetTx ` {e \<in> set (mapTx pool) - set (mapTx pool').
                            GetHash (GetTx e) \<notin> GetHash ` set vtx} \<subseteq> set R)"
      by (rule conjI [OF a conjI [OF b conjI [OF d e]]])
  qed
  show ?thesis by (rule conjI [OF 1 conjI [OF 2 conjI [OF 3 conjI [OF 4 5]]]])
qed

text \<open>
  Two instances on \<open>pool_xy\<close>. The block \<open>[tx_x]\<close>: the estimator gets the entry of
  \<open>tx_x\<close>, which is gone afterwards; \<open>tx_y\<close>, which spends its output, stays, and the
  conflicts list stays empty. The block \<open>[tx_x']\<close>, which conflicts with \<open>tx_x\<close>: both
  entries leave and both transactions are handed back as conflicts.
\<close>

theorem removeForBlock_order_witness:
  "removeForBlock [tx_x] 7 [] True pool_xy
     = (fst (removeForBlock [tx_x] 7 [] True pool_xy), snd (removeForBlock [tx_x] 7 [] True pool_xy))
   \<and> List.map_filter (\<lambda>t. mapTx_find (mapTx pool_xy) (GetHash t)) [tx_x] = [entry_x]
   \<and> last (minerPolicyEstimator (fst (removeForBlock [tx_x] 7 [] True pool_xy)))
        = processBlock 7 [entry_x] True
   \<and> \<not> exists_tx (fst (removeForBlock [tx_x] 7 [] True pool_xy)) (GetHash tx_x)
   \<and> entry_x \<in> set (mapTx pool_xy)
   \<and> entry_x \<notin> set (mapTx (fst (removeForBlock [tx_x] 7 [] True pool_xy)))
   \<and> pool_consistent pool_xy \<and> mapTx pool_xy = [entry_x, entry_y]
   \<and> spends_output entry_y tx_x
   \<and> mapTx (fst (removeForBlock [tx_x] 7 [] True pool_xy)) = [entry_y]
   \<and> snd (removeForBlock [tx_x] 7 [] True pool_xy) = []
   \<and> conflicts_with tx_x' entry_x \<and> \<not> overlaps tx_x' (GetTx entry_y)
   \<and> mapTx (fst (removeForBlock [tx_x'] 7 [] True pool_xy)) = []
   \<and> set (snd (removeForBlock [tx_x'] 7 [] True pool_xy)) = {tx_x, tx_y}
   \<and> snd (removeForBlock [tx_x'] 7 [] True pool_xy) = [tx_x, tx_y]"
proof -
  have ev: "mapTx (fst (removeForBlock [tx_x] 7 [] True pool_xy)) = [entry_y]"
    "snd (removeForBlock [tx_x] 7 [] True pool_xy) = []"
    "mapTx (fst (removeForBlock [tx_x'] 7 [] True pool_xy)) = []"
    "snd (removeForBlock [tx_x'] 7 [] True pool_xy) = [tx_x, tx_y]"
    by code_simp+
  have p: "removeForBlock [tx_x] 7 [] True pool_xy
     = (fst (removeForBlock [tx_x] 7 [] True pool_xy), snd (removeForBlock [tx_x] 7 [] True pool_xy))"
    by simp
  have p': "removeForBlock [tx_x'] 7 [] True pool_xy
     = (fst (removeForBlock [tx_x'] 7 [] True pool_xy), snd (removeForBlock [tx_x'] 7 [] True pool_xy))"
    by simp
  have m: "mapTx pool_xy = [entry_x, entry_y]" by code_simp
  have h: "GetHash tx_x = 10" "GetHash tx_x' = 12" "GetHash (GetTx entry_x) = 10"
    "GetHash (GetTx entry_y) = 11" "GetTx entry_x = tx_x" "GetTx entry_y = tx_y" "GetHash tx_y = 11"
    by (simp_all add: tx_x_def tx_x'_def tx_y_def entry_x_def entry_y_def mk_entry_def mk_tx_def)
  have s: "List.map_filter (\<lambda>t. mapTx_find (mapTx pool_xy) (GetHash t)) [tx_x] = [entry_x]"
    by (simp add: List.map_filter_def h pool_xy_find)
  have so: "spends_output entry_y tx_x"
    by (simp add: spends_output_def entry_y_def mk_entry_def tx_x_def tx_y_def mk_tx_def)
  have cx: "conflicts_with tx_x' entry_x"
    by (simp add: conflicts_with_def overlaps_def tx_x'_def entry_x_def mk_entry_def tx_x_def mk_tx_def)
  have oy: "\<not> overlaps tx_x' (GetTx entry_y)"
    by (simp add: overlaps_def tx_x'_def entry_y_def mk_entry_def tx_y_def mk_tx_def
        sprout_nullifiers_def sapling_nullifiers_def orchard_nullifiers_def)
  have ny: "\<not> conflicts_with tx_x entry_y"
    by (simp add: conflicts_with_def overlaps_def entry_y_def mk_entry_def tx_x_def tx_y_def mk_tx_def
        sprout_nullifiers_def sapling_nullifiers_def orchard_nullifiers_def)
  have s0: "mapTx (fst (removeForBlock [] 7 [] True pool_xy)) = [entry_x, entry_y]"
    "snd (removeForBlock [] 7 [] True pool_xy) = []"
    by (simp_all add: removeForBlock_def List.map_filter_def m)
  note c = removeForBlock_order [OF p]
  from c have 1: "last (minerPolicyEstimator (fst (removeForBlock [tx_x] 7 [] True pool_xy)))
        = processBlock 7 [entry_x] True"
    unfolding s by auto
  from c [THEN conjunct2, THEN conjunct1]
  have 2: "\<not> exists_tx (fst (removeForBlock [tx_x] 7 [] True pool_xy)) (GetHash tx_x)"
    by simp
  from c [THEN conjunct2, THEN conjunct2, THEN conjunct1]
  have 3: "entry_x \<in> set (mapTx pool_xy)
      \<and> entry_x \<notin> set (mapTx (fst (removeForBlock [tx_x] 7 [] True pool_xy)))"
    unfolding s by simp
  note step = c [THEN conjunct2, THEN conjunct2, THEN conjunct2, THEN conjunct2, rule_format,
      OF pool_xy_consistent, THEN conjunct1, rule_format, of 0]
  have r0: "conflict_roots tx_x [entry_y] = {}"
    using ny by (simp add: conflict_roots_def)
  from step have 4: "mapTx (fst (removeForBlock [tx_x] 7 [] True pool_xy)) = [entry_y]
      \<and> snd (removeForBlock [tx_x] 7 [] True pool_xy) = []"
    by (simp add: Let_def s0 h(1-4) r0 reach_empty)
  note c' = removeForBlock_order [OF p']
  note step' = c' [THEN conjunct2, THEN conjunct2, THEN conjunct2, THEN conjunct2, rule_format,
      OF pool_xy_consistent, THEN conjunct1, rule_format, of 0]
  from cx have "GetHash (GetTx entry_x) \<in> conflict_roots tx_x' [entry_x, entry_y]"
    by (simp add: conflict_roots_def)
  then have rx: "GetHash (GetTx entry_x) \<in> reach [entry_x, entry_y] (conflict_roots tx_x' [entry_x, entry_y])"
    by (rule reach.root)
  then have ry: "GetHash (GetTx entry_y) \<in> reach [entry_x, entry_y] (conflict_roots tx_x' [entry_x, entry_y])"
    by (rule reach.spend [where par = entry_x]) (simp_all add: so h(5))
  from rx ry have rr: "10 \<in> reach [entry_x, entry_y] (conflict_roots tx_x' [entry_x, entry_y])"
    "11 \<in> reach [entry_x, entry_y] (conflict_roots tx_x' [entry_x, entry_y])"
    by (simp_all add: h)
  have f: "filter (\<lambda>e. GetHash (GetTx e) \<noteq> GetHash tx_x') [entry_x, entry_y] = [entry_x, entry_y]"
    by (simp add: h)
  have l: "0 < length [tx_x']" by simp
  note st = step' [OF l, unfolded Let_def take_Suc_Cons take_0 nth_Cons_0 s0 f]
  have all: "{e \<in> set [entry_x, entry_y].
        GetHash (GetTx e) \<in> reach [entry_x, entry_y] (conflict_roots tx_x' [entry_x, entry_y])}
      = {entry_x, entry_y}"
    using rx ry by auto
  from st [THEN conjunct1] have 5: "mapTx (fst (removeForBlock [tx_x'] 7 [] True pool_xy)) = []"
    by (simp add: rx ry)
  from st [THEN conjunct2, THEN conjunct1]
  have "set (snd (removeForBlock [tx_x'] 7 [] True pool_xy)) = GetTx ` {entry_x, entry_y}"
    unfolding all by auto
  then have 6: "set (snd (removeForBlock [tx_x'] 7 [] True pool_xy)) = {tx_x, tx_y}"
    by (simp add: h(5,6))
  from p s 1 2 3 pool_xy_consistent m so 4 cx oy 5 6 ev(4) show ?thesis by blast
qed

section \<open>Where the code departs from the claims\<close>

lemma clear_keeps:
  "mapSproutNullifiers (clear p) = mapSproutNullifiers p"
  "mapSaplingNullifiers (clear p) = mapSaplingNullifiers p"
  "mapOrchardNullifiers (clear p) = mapOrchardNullifiers p"
  "weightedTxTree (clear p) = weightedTxTree p"
  "mapRecentlyAddedTx (clear p) = mapRecentlyAddedTx p"
  by (simp_all add: clear_def)

text \<open>
  C1. \<open>clear\<close> empties \<open>mapTx\<close> and \<open>mapNextTx\<close> and resets the two sums, and leaves the
  nullifier maps and the weighted tree as they are. After admitting \<open>tx_sapling\<close> and
  clearing, the pool has no entry, yet the Sapling map still maps nullifier 100 to
  \<open>tx_sapling\<close>, the tree still holds its node, and the pool's own \<open>checkNullifiers\<close>
  assertion fails.
\<close>

theorem clear_leaves_stale_nullifiers:
  "mapTx pool_cleared = [] \<and> mapNextTx pool_cleared = []
   \<and> totalTxSize pool_cleared = 0 \<and> cachedInnerUsage pool_cleared = 0
   \<and> mapSaplingNullifiers pool_cleared = [(100, tx_sapling)]
   \<and> nullifierExists pool_cleared 100 SAPLING = Inr True
   \<and> weightedTxTree pool_cleared = [WeightedTxInfo_from tx_sapling 1]
   \<and> checkNullifiers pool_cleared SAPLING = AssertionFailed"
  by code_simp

lemma anchor_scan_sapling:
  "anchor_scan invalidRoot SAPLING m acc =
     Inr (acc @ map GetTx (filter (\<lambda>it. list_ex (\<lambda>sd. spend_anchor sd = invalidRoot)
                                       (vShieldedSpend (GetTx it))) m))"
  by (induction m arbitrary: acc) simp_all

lemma anchor_scan_sprout:
  "anchor_scan invalidRoot SPROUT m acc =
     Inr (acc @ map GetTx (filter (\<lambda>it. list_ex (\<lambda>js. js_anchor js = invalidRoot)
                                       (vJoinSplit (GetTx it))) m))"
  by (induction m arbitrary: acc) simp_all

text \<open>
  For \<open>SPROUT\<close> and \<open>SAPLING\<close> the sweep does what is claimed: it returns normally, every
  entry with a spend of that kind anchored at \<open>invalidRoot\<close> is gone, and what stays is a
  sub-list of the entries.
\<close>

lemma removeWithAnchor_sprout_sapling:
  "\<exists>pool'. removeWithAnchor invalidRoot SAPLING pool = Inr pool' \<and> shrinks pool pool'
      \<and> (\<forall>e \<in> set (mapTx pool).
            list_ex (\<lambda>sd. spend_anchor sd = invalidRoot) (vShieldedSpend (GetTx e))
            \<longrightarrow> \<not> exists_tx pool' (GetHash (GetTx e)))"
  "\<exists>pool'. removeWithAnchor invalidRoot SPROUT pool = Inr pool' \<and> shrinks pool pool'
      \<and> (\<forall>e \<in> set (mapTx pool).
            list_ex (\<lambda>js. js_anchor js = invalidRoot) (vJoinSplit (GetTx e))
            \<longrightarrow> \<not> exists_tx pool' (GetHash (GetTx e)))"
  by (auto simp: removeWithAnchor_def anchor_scan_sapling anchor_scan_sprout remove_all_shrinks
      intro!: remove_all_absent)

text \<open>
  C3. \<open>removeWithAnchor\<close> has no case for \<open>ORCHARD\<close>: in a pool that has an entry the
  \<^verbatim>\<open>switch\<close> reaches \<^verbatim>\<open>default\<close> and throws "Unknown shielded type", and nothing is
  removed.
\<close>

theorem removeWithAnchor_orchard_throws:
  "mapTx pool \<noteq> [] \<Longrightarrow>
     removeWithAnchor invalidRoot ORCHARD pool = Inl (runtime_error ''Unknown shielded type'')"
  by (cases "mapTx pool") (simp_all add: removeWithAnchor_def)

theorem removeWithAnchor_orchard_throws_witness:
  "mapTx pool_orchard \<noteq> []
   \<and> removeWithAnchor 7 ORCHARD pool_orchard = Inl (runtime_error ''Unknown shielded type'')"
proof -
  have "mapTx pool_orchard \<noteq> []" by code_simp
  then show ?thesis
    using removeWithAnchor_orchard_throws [where pool = pool_orchard and invalidRoot = 7] by simp
qed

lemma entry_spends_marked_orchard [simp]:
  "entry_spends_marked (pool\<lparr>mapOrchardNullifiers := X\<rparr>) = entry_spends_marked pool"
  by (simp add: entry_spends_marked_def fun_eq_iff)

lemma spend_row_ok_orchard [simp]:
  "spend_row_ok (pool\<lparr>mapOrchardNullifiers := X\<rparr>) = spend_row_ok pool"
  by (simp add: spend_row_ok_def fun_eq_iff)

text \<open>The outcome of \<open>check\<close> reads the Orchard map only through the coin-view part.\<close>

lemma check_ignores_orchard:
  "check view_ok rnd (pool\<lparr>mapOrchardNullifiers := X\<rparr>)
     = check (\<lambda>p. view_ok (p\<lparr>mapOrchardNullifiers := X\<rparr>)) rnd pool"
  by (simp add: check_def checkNullifiers_def)

lemma pool_stale_fields:
  "mapTx pool_stale = []" "mapNextTx pool_stale = []"
  "mapSproutNullifiers pool_stale = []" "mapSaplingNullifiers pool_stale = []"
  "totalTxSize pool_stale = 0" "cachedInnerUsage pool_stale = 0"
  "nCheckFrequency pool_stale = 4294967295"
  by (simp_all add: pool_stale_def clear_def addUnchecked_def Let_def split_def
      record_nullifiers_def sprout_nullifiers_def sapling_nullifiers_def
      mk_entry_def tx_orchard_def empty_pool_def mapTx_insert_def mapTx_find_def)

text \<open>A stale row of the Sprout or of the Sapling map makes \<open>check\<close> fail when it runs.\<close>

lemma check_catches_sprout_sapling:
  assumes "nCheckFrequency pool \<noteq> 0" and "rnd < unat (nCheckFrequency pool)"
    and "r \<in> set (mapSproutNullifiers pool) \<union> set (mapSaplingNullifiers pool)"
    and "\<not> exists_tx pool (GetHash (snd r))"
  shows "check view_ok rnd pool = Some AssertionFailed"
proof -
  from assms(4) have "mapTx_find (mapTx pool) (GetHash (snd r)) = None"
    by (simp add: exists_tx_def mapTx_count_def)
  with assms(3) have "checkNullifiers pool SPROUT = AssertionFailed
      \<or> checkNullifiers pool SAPLING = AssertionFailed"
    by (auto simp: checkNullifiers_def list_all_iff intro!: bexI [of _ r])
  moreover have "checkNullifiers pool SPROUT = Done \<or> checkNullifiers pool SPROUT = AssertionFailed"
    by (simp add: checkNullifiers_def)
  ultimately show ?thesis
    using assms(1,2) by (auto simp: check_def split: outcome.splits)
qed

text \<open>
  C4. \<open>check\<close> calls \<open>checkNullifiers\<close> for \<open>SPROUT\<close> and for \<open>SAPLING\<close> only. In
  \<open>pool_stale\<close> the Orchard map points nullifier 200 to a transaction that is not in the
  pool, \<open>checkNullifiers ORCHARD\<close> would fail its assertion, and \<open>check\<close> runs
  (frequency at its maximum, draw 0) and passes.
\<close>

theorem check_misses_orchard:
  "mapOrchardNullifiers pool_stale = [(200, tx_orchard)]
   \<and> \<not> exists_tx pool_stale (GetHash tx_orchard)
   \<and> checkNullifiers pool_stale ORCHARD = AssertionFailed
   \<and> check (\<lambda>p. True) 0 pool_stale = Some Done"
proof -
  have 1: "mapOrchardNullifiers pool_stale = [(200, tx_orchard)]" by code_simp
  have 2: "\<not> exists_tx pool_stale (GetHash tx_orchard)" by code_simp
  have 3: "checkNullifiers pool_stale ORCHARD = AssertionFailed" by code_simp
  have 4: "check (\<lambda>p. True) 0 pool_stale = Some Done"
    by (simp add: check_def checkNullifiers_def pool_stale_fields)
  from 1 2 3 4 show ?thesis by blast
qed

end
